theory Spec2Isabelle
  imports Complex_Main "HOL-Library.Multiset"
begin

unbundle bit_operations_syntax

section \<open>Host-language values\<close>

text \<open>
  The plugin is Python. Texts are modelled as \<^typ>\<open>string\<close>, one \<^typ>\<open>char\<close> per code
  point below 256 (Latin-1); Python integers are unbounded and are modelled as \<^typ>\<open>int\<close>.
  Every exception the code can raise is a value of \<open>error\<close>; a computation that may raise
  returns \<open>error + 'a\<close> with \<open>Inl\<close> for the exception.
\<close>

datatype error =
    ValueError | IndexError | AttributeError | TypeError
  | KeyError | RegexError | DidNotMatch | DecimalOverflow

definition code :: "char \<Rightarrow> nat" where
  "code c = of_char c"

subsection \<open>The builtin \<open>int(text, base)\<close>\<close>

text \<open>
  CPython (3.6 and later) accepts surrounding white space, one sign, the radix prefix that
  belongs to the base, and single underscores between digits. Base 0 reads the radix from
  the prefix. Anything else raises \<open>ValueError\<close>. The white space it strips is tab to
  carriage return, the space, U+0085 and U+00A0; the separators U+001C to U+001F are not
  stripped.
\<close>

definition is_space :: "char \<Rightarrow> bool" where
  "is_space c = (let n = code c in
     (9 \<le> n \<and> n \<le> 13) \<or> n = 32 \<or> n = 133 \<or> n = 160)"

definition strip :: "string \<Rightarrow> string" where
  "strip s = rev (dropWhile is_space (rev (dropWhile is_space s)))"

definition digit_val :: "char \<Rightarrow> nat option" where
  "digit_val c = (let n = code c in
     if 48 \<le> n \<and> n \<le> 57 then Some (n - 48)
     else if 97 \<le> n \<and> n \<le> 122 then Some (n - 87)
     else if 65 \<le> n \<and> n \<le> 90 then Some (n - 55)
     else None)"

fun scan_digits :: "nat \<Rightarrow> string \<Rightarrow> char \<Rightarrow> nat \<Rightarrow> nat option" where
  "scan_digits base [] prev acc = (if prev = CHR ''_'' then None else Some acc)"
| "scan_digits base (c # cs) prev acc =
     (if c = CHR ''_'' then (if prev = CHR ''_'' then None else scan_digits base cs c acc)
      else (case digit_val c of
              None \<Rightarrow> None
            | Some d \<Rightarrow> if d < base then scan_digits base cs c (acc * base + d) else None))"

definition split_sign :: "string \<Rightarrow> bool \<times> string" where
  "split_sign s = (case s of
       [] \<Rightarrow> (False, s)
     | c # r \<Rightarrow> if c = CHR ''+'' then (False, r)
                else if c = CHR ''-'' then (True, r) else (False, s))"

definition detect_base :: "string \<Rightarrow> nat \<times> bool" where
  "detect_base s = (case s of
       [] \<Rightarrow> (10, False)
     | c0 # r \<Rightarrow>
         if c0 \<noteq> CHR ''0'' then (10, False)
         else (case r of
                 [] \<Rightarrow> (10, True)
               | c1 # _ \<Rightarrow>
                   if c1 = CHR ''x'' \<or> c1 = CHR ''X'' then (16, False)
                   else if c1 = CHR ''o'' \<or> c1 = CHR ''O'' then (8, False)
                   else if c1 = CHR ''b'' \<or> c1 = CHR ''B'' then (2, False)
                   else (10, True)))"

definition strip_radix_prefix :: "nat \<Rightarrow> string \<Rightarrow> string" where
  "strip_radix_prefix base s = (case s of
       c0 # c1 # r \<Rightarrow>
         if c0 = CHR ''0'' \<and>
            ((base = 16 \<and> (c1 = CHR ''x'' \<or> c1 = CHR ''X''))
             \<or> (base = 8 \<and> (c1 = CHR ''o'' \<or> c1 = CHR ''O''))
             \<or> (base = 2 \<and> (c1 = CHR ''b'' \<or> c1 = CHR ''B'')))
         then (case r of
                 [] \<Rightarrow> r
               | u # r' \<Rightarrow> if u = CHR ''_'' then r' else r)
         else s
     | _ \<Rightarrow> s)"

definition py_int :: "string \<Rightarrow> nat \<Rightarrow> error + int" where
  "py_int s base =
     (if base \<noteq> 0 \<and> (base < 2 \<or> 36 < base) then Inl ValueError
      else
        let (neg, s2) = split_sign (strip s);
            (b, zero_only) = (if base = 0 then detect_base s2 else (base, False));
            s3 = strip_radix_prefix b s2
        in (case s3 of
              [] \<Rightarrow> Inl ValueError
            | c # _ \<Rightarrow>
                if c = CHR ''_'' then Inl ValueError
                else (case scan_digits b s3 (CHR 0x00) 0 of
                        None \<Rightarrow> Inl ValueError
                      | Some v \<Rightarrow>
                          if zero_only \<and> v \<noteq> 0 then Inl ValueError
                          else Inr (if neg then - int v else int v))))"

text \<open>\<open>x << n\<close> on Python integers: a negative shift count raises \<open>ValueError\<close>.\<close>

definition py_shl :: "int \<Rightarrow> int \<Rightarrow> error + int" where
  "py_shl x n = (if n < 0 then Inl ValueError else Inr (push_bit (nat n) x))"

section \<open>Two's complement\<close>

text \<open>
  \<^verbatim>\<open>
  def twos_complement(value, nbits, base):
      val = int(value, base)
      if val < 0:
          val = (1 << nbits) + val
      else:
          if (val & (1 << (nbits - 1))) != 0:
              val = val - (1 << nbits)
      return val
  \<close>
\<close>

definition twos_complement :: "string \<Rightarrow> int \<Rightarrow> nat \<Rightarrow> error + int" where
  "twos_complement value nbits base =
     (case py_int value base of
        Inl e \<Rightarrow> Inl e
      | Inr val \<Rightarrow>
          if val < 0 then
            (case py_shl 1 nbits of Inl e \<Rightarrow> Inl e | Inr m \<Rightarrow> Inr (m + val))
          else
            (case py_shl 1 (nbits - 1) of
               Inl e \<Rightarrow> Inl e
             | Inr sign_bit \<Rightarrow>
                 if val AND sign_bit \<noteq> 0 then
                   (case py_shl 1 nbits of Inl e \<Rightarrow> Inl e | Inr m \<Rightarrow> Inr (val - m))
                 else Inr val))"

text \<open>The value of a string of binary digits, most significant digit first.\<close>

definition bin_value :: "string \<Rightarrow> nat" where
  "bin_value D = foldl (\<lambda>a c. 2 * a + (if c = CHR ''1'' then 1 else 0)) 0 D"

definition binary_digits :: "string \<Rightarrow> bool" where
  "binary_digits D = (D \<noteq> [] \<and> list_all (\<lambda>c. c = CHR ''0'' \<or> c = CHR ''1'') D)"

text \<open>A character is a digit of the base, and the value of a string of such digits.\<close>

definition digit_ok :: "nat \<Rightarrow> char \<Rightarrow> bool" where
  "digit_ok base c = (case digit_val c of None \<Rightarrow> False | Some d \<Rightarrow> d < base)"

definition digits_value :: "nat \<Rightarrow> string \<Rightarrow> nat" where
  "digits_value base s =
     foldl (\<lambda>a c. a * base + (case digit_val c of None \<Rightarrow> 0 | Some d \<Rightarrow> d)) 0 s"

subsection \<open>Rendering integers\<close>

text \<open>
  \<open>str(n)\<close>, \<open>'{0:b}'.format(n)\<close> and \<open>'{0:#x}'.format(n)\<close> on an integer: a minus sign
  for a negative number, the radix prefix where the format asks for one, then the digits
  of the magnitude, most significant first, in lower case.
\<close>

definition digit_char :: "nat \<Rightarrow> char" where
  "digit_char d = (if d < 16 then ''0123456789abcdef'' ! d else CHR ''?'')"

fun to_digits :: "nat \<Rightarrow> nat \<Rightarrow> string" where
  "to_digits base n =
     (if base < 2 then []
      else if n < base then [digit_char n]
      else to_digits base (n div base) @ [digit_char (n mod base)])"

definition sign_text :: "int \<Rightarrow> string" where
  "sign_text n = (if n < 0 then ''-'' else [])"

definition str_int :: "int \<Rightarrow> string" where
  "str_int n = sign_text n @ to_digits 10 (nat \<bar>n\<bar>)"

definition CONVERT_DST_BIN_DFLT :: string where
  "CONVERT_DST_BIN_DFLT = ''{0:b}''"

definition CONVERT_DST_HEX_DFLT :: string where
  "CONVERT_DST_HEX_DFLT = ''{0:#x}''"

text \<open>The two default destination templates applied to an integer.\<close>

definition format_bin_dflt :: "int \<Rightarrow> string" where
  "format_bin_dflt n = sign_text n @ to_digits 2 (nat \<bar>n\<bar>)"

definition format_hex_dflt :: "int \<Rightarrow> string" where
  "format_hex_dflt n = sign_text n @ ''0x'' @ to_digits 16 (nat \<bar>n\<bar>)"

section \<open>Patterns\<close>

text \<open>
  A compiled pattern keeps its source text (\<open>r.pattern\<close>) and matches a text from its
  first character (\<open>r.match\<close>). A match holds the numbered groups, group 1 first, and the
  names of the named groups; a pattern that does not match gives \<open>None\<close>.
\<close>

record match_obj =
  groups :: "string list"
  group_names :: "(string \<times> nat) list"

record regex =
  rx_pattern :: string
  rx_match :: "string \<Rightarrow> match_obj option"

text \<open>\<open>match.group(i)\<close> for \<open>i \<ge> 1\<close>; a group the pattern does not have raises \<open>IndexError\<close>.\<close>

definition group :: "match_obj \<Rightarrow> nat \<Rightarrow> error + string" where
  "group m i = (if 1 \<le> i \<and> i \<le> length (groups m) then Inr (groups m ! (i - 1))
                else Inl IndexError)"

text \<open>\<open>match.groupdict()\<close>: the named groups as a dictionary.\<close>

definition groupdict :: "match_obj \<Rightarrow> (string \<rightharpoonup> string)" where
  "groupdict m = map_of (map (\<lambda>(name, i). (name, groups m ! (i - 1)))
                       (filter (\<lambda>(name, i). 1 \<le> i \<and> i \<le> length (groups m)) (group_names m)))"

definition CONVERT_SRC_BIN_DFLT :: string where
  "CONVERT_SRC_BIN_DFLT = [CHR 0x5C] @ ''b(?:0b)?([01]+)'' @ [CHR 0x5C] @ ''b''"

definition CONVERT_SRC_FXD_DFLT :: string where
  "CONVERT_SRC_FXD_DFLT =
     [CHR 0x5C] @ ''b(?:0b)?(?P<int>[01]+)([.])(?P<frac>[01]+)'' @ [CHR 0x5C] @ ''b''"

definition CONVERT_SRC_HEX_DFLT :: string where
  "CONVERT_SRC_HEX_DFLT = [CHR 0x5C] @ ''b(?:0x)?([0-9a-fA-F]+)h?'' @ [CHR 0x5C] @ ''b''"

subsection \<open>The default patterns as matchers\<close>

text \<open>
  \<open>\w\<close> on a text pattern: letters, digits and numeric characters of Latin-1, and the
  underscore. \<open>\b\<close> holds between two positions exactly one of which is a word character;
  the start and the end of the text count as not a word character.
\<close>

definition is_word :: "char \<Rightarrow> bool" where
  "is_word c = (let n = code c in
     (48 \<le> n \<and> n \<le> 57) \<or> (65 \<le> n \<and> n \<le> 90) \<or> n = 95 \<or> (97 \<le> n \<and> n \<le> 122)
     \<or> n = 170 \<or> n = 178 \<or> n = 179 \<or> n = 181 \<or> n = 185 \<or> n = 186
     \<or> (188 \<le> n \<and> n \<le> 190) \<or> (192 \<le> n \<and> n \<le> 214)
     \<or> (216 \<le> n \<and> n \<le> 246) \<or> 248 \<le> n)"

definition first_char :: "string \<Rightarrow> char option" where
  "first_char s = (case s of [] \<Rightarrow> None | c # _ \<Rightarrow> Some c)"

definition word_boundary :: "char option \<Rightarrow> char option \<Rightarrow> bool" where
  "word_boundary lc rc =
     ((case lc of None \<Rightarrow> False | Some c \<Rightarrow> is_word c)
      \<noteq> (case rc of None \<Rightarrow> False | Some c \<Rightarrow> is_word c))"

definition is_bin :: "char \<Rightarrow> bool" where
  "is_bin c = (c = CHR ''0'' \<or> c = CHR ''1'')"

definition is_hex :: "char \<Rightarrow> bool" where
  "is_hex c = (let n = code c in
     (48 \<le> n \<and> n \<le> 57) \<or> (97 \<le> n \<and> n \<le> 102) \<or> (65 \<le> n \<and> n \<le> 70))"

text \<open>
  \<open>([01]+)\b\<close>: the greedy run of binary digits, then a word boundary. A shorter run
  is followed by a binary digit, which is a word character after a word character, so
  backtracking into the run never finds a boundary: the longest run decides.
\<close>

definition bin_body :: "string \<Rightarrow> string option" where
  "bin_body t =
     (let run = takeWhile is_bin t; rest = dropWhile is_bin t
      in if run = [] then None
         else if word_boundary (Some (last run)) (first_char rest) then Some run
         else None)"

text \<open>\<open>\b(?:0b)?([01]+)\b\<close>: the prefix is tried first, then the pattern without it.\<close>

definition match_bin_dflt :: "string \<Rightarrow> match_obj option" where
  "match_bin_dflt t =
     (if \<not> word_boundary None (first_char t) then None
      else (case (if take 2 t = ''0b'' then bin_body (drop 2 t) else None) of
              Some g \<Rightarrow> Some \<lparr>groups = [g], group_names = []\<rparr>
            | None \<Rightarrow>
                (case bin_body t of
                   Some g \<Rightarrow> Some \<lparr>groups = [g], group_names = []\<rparr>
                 | None \<Rightarrow> None)))"

text \<open>
  \<open>([0-9a-fA-F]+)h?\b\<close>: the greedy run of hexadecimal digits, an optional \<open>h\<close>, a word
  boundary. \<open>h\<close> is tried first; without it the boundary must follow the run.
\<close>

definition hex_body :: "string \<Rightarrow> string option" where
  "hex_body t =
     (let run = takeWhile is_hex t; rest = dropWhile is_hex t
      in if run = [] then None
         else if first_char rest = Some (CHR ''h'')
                 \<and> word_boundary (Some (CHR ''h'')) (first_char (tl rest)) then Some run
         else if word_boundary (Some (last run)) (first_char rest) then Some run
         else None)"

definition match_hex_dflt :: "string \<Rightarrow> match_obj option" where
  "match_hex_dflt t =
     (if \<not> word_boundary None (first_char t) then None
      else (case (if take 2 t = ''0x'' then hex_body (drop 2 t) else None) of
              Some g \<Rightarrow> Some \<lparr>groups = [g], group_names = []\<rparr>
            | None \<Rightarrow>
                (case hex_body t of
                   Some g \<Rightarrow> Some \<lparr>groups = [g], group_names = []\<rparr>
                 | None \<Rightarrow> None)))"

text \<open>
  \<open>(?P<int>[01]+)([.])(?P<frac>[01]+)\b\<close>: the run before the point is the longest one,
  since only a point may follow it; so is the run after the point, as for \<open>bin_body\<close>.
\<close>

definition fxd_body :: "string \<Rightarrow> (string \<times> string) option" where
  "fxd_body t =
     (let i = takeWhile is_bin t; r1 = dropWhile is_bin t
      in if i = [] then None
         else (case r1 of
                 [] \<Rightarrow> None
               | p # r2 \<Rightarrow>
                   if p \<noteq> CHR ''.'' then None
                   else (case bin_body r2 of
                           None \<Rightarrow> None
                         | Some f \<Rightarrow> Some (i, f))))"

definition fxd_match :: "string \<times> string \<Rightarrow> match_obj" where
  "fxd_match g = \<lparr>groups = [fst g, ''.'', snd g],
                  group_names = [(''int'', 1), (''frac'', 3)]\<rparr>"

definition match_fxd_dflt :: "string \<Rightarrow> match_obj option" where
  "match_fxd_dflt t =
     (if \<not> word_boundary None (first_char t) then None
      else (case (if take 2 t = ''0b'' then fxd_body (drop 2 t) else None) of
              Some g \<Rightarrow> Some (fxd_match g)
            | None \<Rightarrow>
                (case fxd_body t of
                   Some g \<Rightarrow> Some (fxd_match g)
                 | None \<Rightarrow> None)))"

definition bin_regex_dflt :: regex where
  "bin_regex_dflt = \<lparr>rx_pattern = CONVERT_SRC_BIN_DFLT, rx_match = match_bin_dflt\<rparr>"

definition hex_regex_dflt :: regex where
  "hex_regex_dflt = \<lparr>rx_pattern = CONVERT_SRC_HEX_DFLT, rx_match = match_hex_dflt\<rparr>"

definition fxd_regex_dflt :: regex where
  "fxd_regex_dflt = \<lparr>rx_pattern = CONVERT_SRC_FXD_DFLT, rx_match = match_fxd_dflt\<rparr>"

subsection \<open>Resolving a pattern\<close>

text \<open>
  \<^verbatim>\<open>
  def load_pattern(view, name, default):
      try:
          return re.compile(view.settings().get(name, default))
      except:
          return re.compile(default)
  \<close>
  The regular-expression compiler is the library's: it is the parameter \<open>re_compile\<close>,
  which gives \<open>None\<close> where \<open>re.compile\<close> raises. A setting is a text or some other JSON
  value; compiling a value that is not a text raises \<open>TypeError\<close>.
\<close>

datatype setting = Text string | Other

text \<open>
  The editor is a collaborator outside the plugin. A view is modelled by what the plugin
  reads from it: its settings and its selections, in the order \<open>view.sel()\<close> yields them.
  A selection is modelled by the texts \<open>view.substr\<close> returns for it: for the region as
  selected, for the region \<open>view.word(sel)\<close>, and for that region widened by one
  character on each side.
\<close>

record selection =
  sel_empty :: bool
  sel_text :: string
  word_text :: string
  quoted_text :: string

record view =
  settings :: "string \<rightharpoonup> setting"
  sel :: "selection list"

definition compile_setting :: "(string \<Rightarrow> regex option) \<Rightarrow> setting \<Rightarrow> error + regex" where
  "compile_setting re_compile v = (case v of
       Other \<Rightarrow> Inl TypeError
     | Text p \<Rightarrow> (case re_compile p of None \<Rightarrow> Inl RegexError | Some r \<Rightarrow> Inr r))"

definition settings_get :: "view \<Rightarrow> string \<Rightarrow> setting \<Rightarrow> setting" where
  "settings_get v name dflt = (case settings v name of None \<Rightarrow> dflt | Some x \<Rightarrow> x)"

definition load_pattern ::
  "(string \<Rightarrow> regex option) \<Rightarrow> view \<Rightarrow> string \<Rightarrow> string \<Rightarrow> error + regex" where
  "load_pattern re_compile v name dflt =
     (case compile_setting re_compile (settings_get v name (Text dflt)) of
        Inr r \<Rightarrow> Inr r
      | Inl _ \<Rightarrow> compile_setting re_compile (Text dflt))"

section \<open>The commands\<close>

text \<open>
  Every command runs the same loop over the selections, as in \<open>BinToDecCommand.run\<close>:
  \<^verbatim>\<open>
  num_skip = 0
  r = load_pattern(view, 'convert_src_bin', _CONVERT_SRC_BIN_DFLT)
  for sel in view.sel():
      try:
          if sel.empty():
              sel = view.word(sel)
              if r.pattern[0] == '\'':
                  sel.a -= 1
                  sel.b += 1
          match = r.match(view.substr(sel))
          view.replace(edit, sel, str(int(match.group(1), 2)))
      except:
          num_skip += 1
  if num_skip > 0:
      sublime.status_message("Skipped %d invalid binary value(s)!" % num_skip)
  \<close>
\<close>

definition selected_text :: "regex \<Rightarrow> selection \<Rightarrow> error + string" where
  "selected_text r s =
     (if sel_empty s then
        (case rx_pattern r of
           [] \<Rightarrow> Inl IndexError
         | c # _ \<Rightarrow> if c = CHR 0x27 then Inr (quoted_text s) else Inr (word_text s))
      else Inr (sel_text s))"

text \<open>\<open>int(r.match(text).group(1), base)\<close>; \<open>group\<close> of no match raises \<open>AttributeError\<close>.\<close>

definition extract_int :: "regex \<Rightarrow> nat \<Rightarrow> string \<Rightarrow> error + int" where
  "extract_int r base t =
     (case rx_match r t of
        None \<Rightarrow> Inl AttributeError
      | Some m \<Rightarrow> (case group m 1 of Inl e \<Rightarrow> Inl e | Inr g \<Rightarrow> py_int g base))"

text \<open>The body of the \<open>try\<close> for one selection: the replacement text, or the exception.\<close>

definition bin_to_dec_item :: "regex \<Rightarrow> selection \<Rightarrow> error + string" where
  "bin_to_dec_item r s =
     (case selected_text r s of
        Inl e \<Rightarrow> Inl e
      | Inr t \<Rightarrow> (case extract_int r 2 t of Inl e \<Rightarrow> Inl e | Inr n \<Rightarrow> Inr (str_int n)))"

definition hex_to_dec_item :: "regex \<Rightarrow> selection \<Rightarrow> error + string" where
  "hex_to_dec_item r s =
     (case selected_text r s of
        Inl e \<Rightarrow> Inl e
      | Inr t \<Rightarrow> (case extract_int r 16 t of Inl e \<Rightarrow> Inl e | Inr n \<Rightarrow> Inr (str_int n)))"

text \<open>
  The loop, with its state passed along: the replacement made for each selection so far
  (\<open>None\<close> where the selection was left as it is) and \<open>num_skip\<close>.
\<close>

fun convert_all ::
  "(selection \<Rightarrow> error + string) \<Rightarrow> selection list \<Rightarrow> string option list \<times> nat
     \<Rightarrow> string option list \<times> nat" where
  "convert_all conv [] st = st"
| "convert_all conv (s # ss) (replaced, num_skip) =
     (case conv s of
        Inr t \<Rightarrow> convert_all conv ss (replaced @ [Some t], num_skip)
      | Inl _ \<Rightarrow> convert_all conv ss (replaced @ [None], num_skip + 1))"

definition status_message :: "string \<Rightarrow> nat \<Rightarrow> string option" where
  "status_message kind num_skip =
     (if num_skip > 0
      then Some (''Skipped '' @ str_int (int num_skip) @ '' invalid '' @ kind @ '' value(s)!'')
      else None)"

text \<open>The loop and the status message that follows it, for any body of the \<open>try\<close>.\<close>

definition run_selections ::
  "(selection \<Rightarrow> error + string) \<Rightarrow> string \<Rightarrow> selection list
     \<Rightarrow> string option list \<times> string option" where
  "run_selections conv kind ss =
     (let (replaced, num_skip) = convert_all conv ss ([], 0)
      in (replaced, status_message kind num_skip))"

definition BinToDecCommand_run ::
  "(string \<Rightarrow> regex option) \<Rightarrow> view \<Rightarrow> error + (string option list \<times> string option)" where
  "BinToDecCommand_run re_compile v =
     (case load_pattern re_compile v ''convert_src_bin'' CONVERT_SRC_BIN_DFLT of
        Inl e \<Rightarrow> Inl e
      | Inr r \<Rightarrow> Inr (run_selections (bin_to_dec_item r) ''binary'' (sel v)))"

definition HexToDecCommand_run ::
  "(string \<Rightarrow> regex option) \<Rightarrow> view \<Rightarrow> error + (string option list \<times> string option)" where
  "HexToDecCommand_run re_compile v =
     (case load_pattern re_compile v ''convert_src_hex'' CONVERT_SRC_HEX_DFLT of
        Inl e \<Rightarrow> Inl e
      | Inr r \<Rightarrow> Inr (run_selections (hex_to_dec_item r) ''hexadecimal'' (sel v)))"

text \<open>
  \<open>SbinToDecCommand.run\<close> has the same loop with the body
  \<open>str(twos_complement(match.group(1), len(match.group(1)), 2))\<close>.
\<close>

definition sbin_to_dec_item :: "regex \<Rightarrow> selection \<Rightarrow> error + string" where
  "sbin_to_dec_item r s =
     (case selected_text r s of
        Inl e \<Rightarrow> Inl e
      | Inr t \<Rightarrow>
          (case rx_match r t of
             None \<Rightarrow> Inl AttributeError
           | Some m \<Rightarrow>
               (case group m 1 of
                  Inl e \<Rightarrow> Inl e
                | Inr g \<Rightarrow>
                    (case twos_complement g (int (length g)) 2 of
                       Inl e \<Rightarrow> Inl e
                     | Inr n \<Rightarrow> Inr (str_int n)))))"

definition SbinToDecCommand_run ::
  "(string \<Rightarrow> regex option) \<Rightarrow> view \<Rightarrow> error + (string option list \<times> string option)" where
  "SbinToDecCommand_run re_compile v =
     (case load_pattern re_compile v ''convert_src_bin'' CONVERT_SRC_BIN_DFLT of
        Inl e \<Rightarrow> Inl e
      | Inr r \<Rightarrow> Inr (run_selections (sbin_to_dec_item r) ''binary'' (sel v)))"

text \<open>The result of one selection as the loop records it.\<close>

definition replacement :: "error + string \<Rightarrow> string option" where
  "replacement x = (case x of Inl _ \<Rightarrow> None | Inr t \<Rightarrow> Some t)"

text \<open>A compiler that knows the built-in patterns only, for concrete runs.\<close>

definition compile_builtin :: "string \<Rightarrow> regex option" where
  "compile_builtin p =
     (if p = CONVERT_SRC_BIN_DFLT then Some bin_regex_dflt
      else if p = CONVERT_SRC_HEX_DFLT then Some hex_regex_dflt
      else if p = CONVERT_SRC_FXD_DFLT then Some fxd_regex_dflt
      else None)"

definition selected :: "string \<Rightarrow> selection" where
  "selected t = \<lparr>sel_empty = False, sel_text = t, word_text = t, quoted_text = t\<rparr>"

section \<open>Decimal to exponential\<close>

text \<open>
  \<open>DecToExpCommand.run\<close> normalises a float with two loops:
  \<^verbatim>\<open>
  base = float(view.substr(sel))
  exp = 0
  while base > 10:
      base /= 10
      exp += 1
  while base < 1:
      base *= 10
      exp -= 1
  \<close>
  The float arithmetic is the host language's: the two comparisons and the two operations
  are the parameters of the model. A loop that does not end gives \<open>None\<close>.
\<close>

record 'f float_ops =
  gt_ten :: "'f \<Rightarrow> bool"
  lt_one :: "'f \<Rightarrow> bool"
  div_ten :: "'f \<Rightarrow> 'f"
  mul_ten :: "'f \<Rightarrow> 'f"

partial_function (option) divide_loop ::
  "'f float_ops \<Rightarrow> 'f \<Rightarrow> int \<Rightarrow> ('f \<times> int) option" where
  "divide_loop ops base ex =
     (if gt_ten ops base then divide_loop ops (div_ten ops base) (ex + 1)
      else Some (base, ex))"

partial_function (option) multiply_loop ::
  "'f float_ops \<Rightarrow> 'f \<Rightarrow> int \<Rightarrow> ('f \<times> int) option" where
  "multiply_loop ops base ex =
     (if lt_one ops base then multiply_loop ops (mul_ten ops base) (ex - 1)
      else Some (base, ex))"

definition dec_to_exp_normalize :: "'f float_ops \<Rightarrow> 'f \<Rightarrow> ('f \<times> int) option" where
  "dec_to_exp_normalize ops base =
     (case divide_loop ops base 0 of
        None \<Rightarrow> None
      | Some (b, ex) \<Rightarrow> multiply_loop ops b ex)"

text \<open>Exact arithmetic on rationals, which agrees with the floats at zero.\<close>

definition exact_ops :: "rat float_ops" where
  "exact_ops = \<lparr>gt_ten = (\<lambda>x. x > 10), lt_one = (\<lambda>x. x < 1),
                 div_ten = (\<lambda>x. x / 10), mul_ten = (\<lambda>x. x * 10)\<rparr>"

section \<open>Decimal arithmetic\<close>

text \<open>
  The fixed-point conversions compute with the \<open>decimal\<close> module after
  \<open>getcontext().prec = 128\<close>. A finite \<open>Decimal\<close> is a coefficient and an exponent,
  with the value \<open>coeff * 10 ^ expo\<close>; the sign is carried by the coefficient. The context
  gives the precision and the exponent range; its rounding is half-even and its overflow
  trap is set, so an overflow raises.
\<close>

record decimal =
  coeff :: int
  expo :: int

record dcontext =
  prec :: nat
  Emax :: int
  Emin :: int

definition dec_val :: "decimal \<Rightarrow> rat" where
  "dec_val d = of_int (coeff d) * 10 powi (expo d)"

text \<open>The default context with the precision the plugin sets.\<close>

definition ctx128 :: dcontext where
  "ctx128 = \<lparr>prec = 128, Emax = 999999, Emin = - 999999\<rparr>"

definition Etiny :: "dcontext \<Rightarrow> int" where
  "Etiny ctx = Emin ctx - int (prec ctx) + 1"

definition Etop :: "dcontext \<Rightarrow> int" where
  "Etop ctx = Emax ctx - int (prec ctx) + 1"

text \<open>The number of decimal digits of a coefficient: \<open>len(str(n))\<close>.\<close>

function ndigits :: "int \<Rightarrow> nat" where
  "ndigits c = (if \<bar>c\<bar> < 10 then 1 else 1 + ndigits (\<bar>c\<bar> div 10))"
  by pat_completeness auto
termination
  by (relation "measure (\<lambda>c. nat \<bar>c\<bar>)") auto

text \<open>\<open>c / m\<close> rounded to the nearest integer, a tie to the even one (\<open>m > 0\<close>).\<close>

definition round_half_even :: "int \<Rightarrow> int \<Rightarrow> int" where
  "round_half_even c m =
     (let q = c div m; r = c mod m
      in if 2 * r < m then q
         else if m < 2 * r then q + 1
         else if even q then q else q + 1)"

text \<open>
  Rounding a result to the context (\<open>Decimal._fix\<close>): a coefficient of more than \<open>prec\<close>
  digits is rounded to \<open>prec\<close> digits, a subnormal one to the exponent \<open>Etiny\<close>; a result
  above \<open>Emax\<close> raises \<open>Overflow\<close>; zero keeps its exponent within the range.
\<close>

definition dec_fix :: "dcontext \<Rightarrow> decimal \<Rightarrow> error + decimal" where
  "dec_fix ctx d =
     (if coeff d = 0 then
        Inr \<lparr>coeff = 0, expo = min (max (expo d) (Etiny ctx)) (Emax ctx)\<rparr>
      else
        let exp_min = int (ndigits (coeff d)) + expo d - int (prec ctx)
        in if exp_min > Etop ctx then Inl DecimalOverflow
           else
             let exp_min = max exp_min (Etiny ctx)
             in if expo d < exp_min then
                  let c = round_half_even (coeff d) (10 ^ nat (exp_min - expo d));
                      (c, exp_min) = (if ndigits c > prec ctx then (c div 10, exp_min + 1)
                                      else (c, exp_min))
                  in if exp_min > Etop ctx then Inl DecimalOverflow
                     else Inr \<lparr>coeff = c, expo = exp_min\<rparr>
                else Inr d)"

text \<open>\<open>Decimal(n)\<close> of an integer and \<open>Decimal(0.0)\<close> are exact.\<close>

definition Decimal :: "int \<Rightarrow> decimal" where
  "Decimal n = \<lparr>coeff = n, expo = 0\<rparr>"

text \<open>\<open>x + y\<close>: the exact sum at the smaller exponent, rounded to the context.\<close>

definition dec_add :: "dcontext \<Rightarrow> decimal \<Rightarrow> decimal \<Rightarrow> error + decimal" where
  "dec_add ctx x y =
     (let e = min (expo x) (expo y)
      in dec_fix ctx \<lparr>coeff = coeff x * 10 ^ nat (expo x - e) + coeff y * 10 ^ nat (expo y - e),
                  expo = e\<rparr>)"

text \<open>\<open>- x\<close>: the sign switched, rounded to the context.\<close>

definition dec_neg :: "dcontext \<Rightarrow> decimal \<Rightarrow> error + decimal" where
  "dec_neg ctx x = dec_fix ctx \<lparr>coeff = - coeff x, expo = expo x\<rparr>"

text \<open>
  \<open>Decimal(2) ** Decimal(k)\<close> for an integer \<open>k\<close>: the power is \<open>2 ^ k\<close> for \<open>k \<ge> 0\<close> and
  \<open>5 ^ (- k) * 10 ^ k\<close> for \<open>k < 0\<close>, exact when it fits the precision and correctly
  rounded otherwise.
\<close>

definition dec_pow2 :: "dcontext \<Rightarrow> int \<Rightarrow> error + decimal" where
  "dec_pow2 ctx k =
     (if 0 \<le> k then dec_fix ctx \<lparr>coeff = 2 ^ nat k, expo = 0\<rparr>
      else dec_fix ctx \<lparr>coeff = 5 ^ nat (- k), expo = k\<rparr>)"

section \<open>Fixed point to decimal\<close>

text \<open>
  \<^verbatim>\<open>
  def UFixedToDecimal(matches):
      getcontext().prec = 128
      integer_portion = int(matches['int'], 2)
      value = Decimal(0.0)
      for i, digit in enumerate(matches['frac']):
          if digit == "1":
              value += (Decimal(2) ** Decimal(-int(i) - 1))
      fractional_portion = value
      return integer_portion + fractional_portion
  \<close>
  \<open>matches\<close> is the dictionary of the named groups; a missing key raises \<open>KeyError\<close>.
\<close>

fun frac_loop :: "dcontext \<Rightarrow> (nat \<times> char) list \<Rightarrow> decimal \<Rightarrow> error + decimal" where
  "frac_loop ctx [] val = Inr val"
| "frac_loop ctx ((i, digit) # rest) val =
     (if digit = CHR ''1'' then
        (case dec_pow2 ctx (- int i - 1) of
           Inl e \<Rightarrow> Inl e
         | Inr p \<Rightarrow>
             (case dec_add ctx val p of
                Inl e \<Rightarrow> Inl e
              | Inr v \<Rightarrow> frac_loop ctx rest v))
      else frac_loop ctx rest val)"

definition UFixedToDecimal :: "(string \<rightharpoonup> string) \<Rightarrow> error + decimal" where
  "UFixedToDecimal matches =
     (case matches ''int'' of
        None \<Rightarrow> Inl KeyError
      | Some i \<Rightarrow>
          (case py_int i 2 of
             Inl e \<Rightarrow> Inl e
           | Inr integer_portion \<Rightarrow>
               (case matches ''frac'' of
                  None \<Rightarrow> Inl KeyError
                | Some f \<Rightarrow>
                    (case frac_loop ctx128 (enumerate 0 f) (Decimal 0) of
                       Inl e \<Rightarrow> Inl e
                     | Inr fractional_portion \<Rightarrow>
                         dec_add ctx128 fractional_portion (Decimal integer_portion)))))"

text \<open>
  \<^verbatim>\<open>
  def FixedToDecimal(matches):
      getcontext().prec = 128
      sign = matches['int'][0]
      if sign == '0':
          return UFixedToDecimal(matches)
      else:
          power = len(matches['int']) - 1
          start = -(Decimal(2) ** Decimal(power))
          matches['int'] = '0' + matches['int'][1:]
          add = UFixedToDecimal(matches)
          value = start + add
      return value
  \<close>
\<close>

definition FixedToDecimal :: "(string \<rightharpoonup> string) \<Rightarrow> error + decimal" where
  "FixedToDecimal matches =
     (case matches ''int'' of
        None \<Rightarrow> Inl KeyError
      | Some i \<Rightarrow>
          (case i of
             [] \<Rightarrow> Inl IndexError
           | sign # rest \<Rightarrow>
               if sign = CHR ''0'' then UFixedToDecimal matches
               else
                 (case dec_pow2 ctx128 (int (length i) - 1) of
                    Inl e \<Rightarrow> Inl e
                  | Inr p \<Rightarrow>
                      (case dec_neg ctx128 p of
                         Inl e \<Rightarrow> Inl e
                       | Inr start \<Rightarrow>
                           (case UFixedToDecimal (matches(''int'' \<mapsto> CHR ''0'' # rest)) of
                              Inl e \<Rightarrow> Inl e
                            | Inr add \<Rightarrow> dec_add ctx128 start add)))))"

text \<open>
  The exact value the specification gives for fixed-point digits: the integer digits
  parsed in base 2 plus \<open>2 ^ (- (i + 1))\<close> for every position \<open>i\<close> of the fractional
  digits, counted from 0, that holds a \<open>1\<close>.
\<close>

definition frac_value :: "nat \<Rightarrow> string \<Rightarrow> rat" where
  "frac_value j F =
     sum_list (map (\<lambda>(i, digit). if digit = CHR ''1'' then 1 / 2 ^ (i + 1) else 0)
                   (enumerate j F))"

definition unsigned_value :: "string \<Rightarrow> string \<Rightarrow> rat" where
  "unsigned_value I F = of_nat (bin_value I) + frac_value 0 F"

definition fixed_matches :: "string \<Rightarrow> string \<Rightarrow> (string \<rightharpoonup> string)" where
  "fixed_matches I F = [''int'' \<mapsto> I, ''frac'' \<mapsto> F]"

text \<open>
  The number of fractional digits up to the last \<open>1\<close>: the number of digits the exact
  value has after the decimal point.
\<close>

fun sig_frac :: "string \<Rightarrow> nat" where
  "sig_frac [] = 0"
| "sig_frac (c # F) = (if c = CHR ''1'' \<or> 0 < sig_frac F then Suc (sig_frac F) else 0)"

text \<open>
  A number that a \<open>Decimal\<close> of precision 128 can hold: it has at most 128 significant
  decimal digits.
\<close>

definition fits128 :: "rat \<Rightarrow> bool" where
  "fits128 x = (\<exists>c e. \<bar>c\<bar> < 10 ^ 128 \<and> x = of_int c * 10 powi e)"

section \<open>Parsing digit strings\<close>

lemma digit_ok_not_special:
  assumes "digit_ok base c"
  shows "\<not> is_space c" "c \<noteq> CHR ''_''" "c \<noteq> CHR ''+''" "c \<noteq> CHR ''-''"
  using assms
  by (auto simp: digit_ok_def digit_val_def is_space_def code_def Let_def split: if_splits)

lemma digit_ok_not_prefix:
  assumes "digit_ok base c"
  shows "\<not> (base = 16 \<and> (c = CHR ''x'' \<or> c = CHR ''X''))"
        "\<not> (base = 8 \<and> (c = CHR ''o'' \<or> c = CHR ''O''))"
        "\<not> (base = 2 \<and> (c = CHR ''b'' \<or> c = CHR ''B''))"
  using assms
  by (auto simp: digit_ok_def digit_val_def code_def Let_def split: if_splits)

lemma dropWhile_hd_id: "xs = [] \<or> \<not> P (hd xs) \<Longrightarrow> dropWhile P xs = xs"
  by (cases xs) auto

lemma strip_digits:
  assumes "list_all (digit_ok base) s"
  shows "strip s = s"
proof (cases "s = []")
  case True
  then show ?thesis by (simp add: strip_def)
next
  case False
  have h: "\<not> is_space (hd s)" using assms False
    by (cases s) (auto simp: digit_ok_not_special)
  have l: "\<not> is_space (hd (rev s))" using assms False
    by (cases s rule: rev_cases) (auto simp: digit_ok_not_special)
  show ?thesis
    by (simp add: strip_def dropWhile_hd_id h l)
qed

lemma scan_digits_ok:
  "list_all (digit_ok base) s \<Longrightarrow> prev \<noteq> CHR ''_'' \<Longrightarrow>
   scan_digits base s prev acc =
     Some (foldl (\<lambda>a c. a * base + (case digit_val c of None \<Rightarrow> 0 | Some d \<Rightarrow> d)) acc s)"
proof (induction s arbitrary: prev acc)
  case Nil
  then show ?case by simp
next
  case (Cons c cs)
  from Cons.prems have ok: "digit_ok base c" and rest: "list_all (digit_ok base) cs" by simp_all
  from ok obtain d where d: "digit_val c = Some d" "d < base"
    by (auto simp: digit_ok_def split: option.splits)
  have nu: "c \<noteq> CHR ''_''" using ok by (rule digit_ok_not_special)
  show ?case using Cons.IH [OF rest nu] d nu by simp
qed

lemma py_int_digits:
  assumes b: "2 \<le> base" "base \<le> 36" and ne: "s \<noteq> []" and ok: "list_all (digit_ok base) s"
  shows "py_int s base = Inr (int (digits_value base s))"
proof -
  obtain c cs where s: "s = c # cs" using ne by (cases s) auto
  have c: "digit_ok base c" using ok s by simp
  have sign: "split_sign s = (False, s)"
    using c s digit_ok_not_special [OF c] by (simp add: split_sign_def)
  have pre: "strip_radix_prefix base s = s"
  proof (cases cs)
    case Nil
    then show ?thesis by (simp add: strip_radix_prefix_def s)
  next
    case (Cons c1 r)
    then have "digit_ok base c1" using ok s by simp
    from digit_ok_not_prefix [OF this] show ?thesis
      by (auto simp: strip_radix_prefix_def s Cons)
  qed
  have sc: "scan_digits base s (CHR 0x00) 0 = Some (digits_value base s)"
    unfolding digits_value_def by (rule scan_digits_ok [OF ok]) simp
  have nu: "c \<noteq> CHR ''_''" using c by (rule digit_ok_not_special)
  show ?thesis
    using b sign pre sc nu
    by (simp add: py_int_def strip_digits [OF ok, unfolded s] s)
qed

lemma binary_digit_ok: "c = CHR ''0'' \<or> c = CHR ''1'' \<Longrightarrow> digit_ok 2 c"
  by (auto simp: digit_ok_def digit_val_def code_def)

lemma binary_digits_ok: "binary_digits D \<Longrightarrow> list_all (digit_ok 2) D"
  by (auto simp: binary_digits_def list_all_iff binary_digit_ok)

lemma foldl_bin_value:
  "list_all (\<lambda>c. c = CHR ''0'' \<or> c = CHR ''1'') D \<Longrightarrow>
   foldl (\<lambda>a c. a * 2 + (case digit_val c of None \<Rightarrow> 0 | Some d \<Rightarrow> d)) acc D
     = foldl (\<lambda>a c. 2 * a + (if c = CHR ''1'' then 1 else 0)) acc D"
  by (induction D arbitrary: acc) (auto simp: digit_val_def code_def mult.commute)

lemma py_int_binary: "binary_digits D \<Longrightarrow> py_int D 2 = Inr (int (bin_value D))"
  using py_int_digits [of 2 D] foldl_bin_value [of D 0]
  by (simp add: binary_digits_ok digits_value_def bin_value_def binary_digits_def)

lemma bin_value_foldl_bound:
  "foldl (\<lambda>a c. 2 * a + (if c = CHR ''1'' then 1 else 0)) (acc::nat) D < (acc + 1) * 2 ^ length D"
proof (induction D arbitrary: acc)
  case Nil
  then show ?case by simp
next
  case (Cons c cs)
  have "foldl (\<lambda>a c. 2 * a + (if c = CHR ''1'' then 1 else 0)) (2 * acc + (if c = CHR ''1'' then 1 else 0)) cs
        < (2 * acc + (if c = CHR ''1'' then 1 else 0) + 1) * 2 ^ length cs"
    by (rule Cons.IH)
  also have "\<dots> \<le> (2 * acc + 2) * 2 ^ length cs"
    by (simp add: mult_le_mono1)
  also have "\<dots> = (acc + 1) * 2 ^ length (c # cs)" by simp
  finally show ?case by simp
qed

lemma bin_value_less: "bin_value D < 2 ^ length D"
  using bin_value_foldl_bound [of 0 D] by (simp add: bin_value_def)

section \<open>Two's complement of a binary literal\<close>

lemma bit_top_iff:
  assumes "0 \<le> v" "v < 2 ^ Suc m"
  shows "bit (v::int) m \<longleftrightarrow> 2 ^ m \<le> v"
proof (cases "2 ^ m \<le> v")
  case True
  have "v div 2 ^ m = 1"
    by (rule int_div_pos_eq [where r = "v - 2 ^ m"]) (use True assms in simp_all)
  then show ?thesis using True by (simp add: bit_iff_odd)
next
  case False
  then have "v div 2 ^ m = 0" using assms by simp
  then show ?thesis using False by (simp add: bit_iff_odd)
qed

lemma twos_complement_binary_eq:
  assumes "binary_digits D"
  shows "twos_complement D (int (length D)) 2 =
           Inr (if bit (int (bin_value D)) (length D - 1)
                then int (bin_value D) - 2 ^ length D else int (bin_value D))"
proof -
  have len: "0 < length D" using assms by (simp add: binary_digits_def)
  have n1: "nat (int (length D) - 1) = length D - 1" using len by simp
  show ?thesis
    using len
    by (simp add: twos_complement_def py_int_binary [OF assms] py_shl_def n1
        bit_iff_and_push_bit_not_eq_0 push_bit_eq_mult)
qed

text \<open>
  C3. For a non-empty string \<open>D\<close> of binary digits, \<open>twos_complement(D, len(D), 2)\<close>
  parses \<open>D\<close> as the unsigned integer \<open>val\<close> and returns \<open>val - 2 ^ len(D)\<close> when bit
  \<open>len(D) - 1\<close> of \<open>val\<close> is set, and \<open>val\<close> itself otherwise.
\<close>

theorem twos_complement_sign_extends:
  assumes "binary_digits D"
  shows "twos_complement D (int (length D)) 2 =
           Inr (if bit (int (bin_value D)) (length D - 1)
                then int (bin_value D) - 2 ^ length D else int (bin_value D))"
  using assms by (rule twos_complement_binary_eq)

theorem twos_complement_sign_extends_witness:
  "binary_digits ''101'' \<and> bin_value ''101'' = 5 \<and> twos_complement ''101'' 3 2 = Inr (- 3)"
  using twos_complement_sign_extends [of "''101''"]
  by (simp add: binary_digits_def bin_value_def)

text \<open>
  C10. For a non-empty string \<open>D\<close> of \<open>n\<close> binary digits the result of
  \<open>twos_complement(D, n, 2)\<close> lies between \<open>- 2 ^ (n - 1)\<close> and \<open>2 ^ (n - 1) - 1\<close>.
\<close>

theorem twos_complement_range:
  assumes "binary_digits D"
  shows "\<exists>r. twos_complement D (int (length D)) 2 = Inr r
             \<and> - (2 ^ (length D - 1)) \<le> r \<and> r \<le> 2 ^ (length D - 1) - 1"
proof -
  define n where "n = length D - 1"
  have len: "length D = Suc n" using assms by (simp add: binary_digits_def n_def)
  have lt: "int (bin_value D) < 2 ^ Suc n"
    using bin_value_less [of D] len
    by (metis of_nat_less_iff of_nat_numeral of_nat_power)
  have top: "bit (int (bin_value D)) n \<longleftrightarrow> 2 ^ n \<le> int (bin_value D)"
    by (rule bit_top_iff) (use lt in simp_all)
  show ?thesis
    by (subst twos_complement_binary_eq [OF assms]) (use lt top len in auto)
qed

theorem twos_complement_range_witness:
  "binary_digits ''1000'' \<and> twos_complement ''1000'' 4 2 = Inr (- 8)
   \<and> binary_digits ''0111'' \<and> twos_complement ''0111'' 4 2 = Inr 7"
  using twos_complement_range [of "''1000''"] twos_complement_range [of "''0111''"]
  by (simp add: binary_digits_def twos_complement_def py_int_def strip_def is_space_def
      code_def split_sign_def strip_radix_prefix_def digit_val_def py_shl_def)

section \<open>Resolving a pattern\<close>

text \<open>
  C8. When the override configured for a pattern name does not compile, \<open>load_pattern\<close>
  returns the compiled default pattern and raises nothing.
\<close>

theorem load_pattern_falls_back:
  assumes "settings v name = Some (Text p)"
    and "re_compile p = None"
    and "re_compile dflt = Some r"
  shows "load_pattern re_compile v name dflt = Inr r"
  using assms by (simp add: load_pattern_def settings_get_def compile_setting_def)

theorem load_pattern_falls_back_witness:
  "compile_builtin ''([01]+'' = None
   \<and> load_pattern compile_builtin
        \<lparr>settings = [''convert_src_bin'' \<mapsto> Text ''([01]+''], sel = []\<rparr>
        ''convert_src_bin'' CONVERT_SRC_BIN_DFLT = Inr bin_regex_dflt"
proof -
  have a: "compile_builtin ''([01]+'' = None"
    by (simp add: compile_builtin_def CONVERT_SRC_BIN_DFLT_def CONVERT_SRC_HEX_DFLT_def
        CONVERT_SRC_FXD_DFLT_def)
  have b: "compile_builtin CONVERT_SRC_BIN_DFLT = Some bin_regex_dflt"
    by (simp add: compile_builtin_def)
  show ?thesis
    using a load_pattern_falls_back [of _ "''convert_src_bin''" "''([01]+''", OF _ a b]
    by simp
qed

section \<open>The loop over the selections\<close>

lemma convert_all_eq:
  "convert_all conv ss (replaced, k) =
     (replaced @ map (\<lambda>s. replacement (conv s)) ss, k + length (filter (\<lambda>s. isl (conv s)) ss))"
  by (induction ss arbitrary: replaced k) (auto simp: replacement_def split: sum.splits)

lemma run_selections_eq:
  "run_selections conv kind ss =
     (map (\<lambda>s. replacement (conv s)) ss,
      status_message kind (length (filter (\<lambda>s. isl (conv s)) ss)))"
  by (simp add: run_selections_def convert_all_eq)

lemma length_filter_mset:
  "mset ss' = mset ss \<Longrightarrow> length (filter P ss') = length (filter P ss)"
  by (metis mset_filter size_mset)

lemma zip_map_mset:
  assumes "mset ss' = mset ss"
  shows "mset (zip ss' (map f ss')) = mset (zip ss (map f ss))"
proof -
  have z: "zip xs (map f xs) = map (\<lambda>s. (s, f s)) xs" for xs
    by (induction xs) simp_all
  show ?thesis using assms by (simp add: z)
qed

lemma length_filter_replacement:
  "length (filter (\<lambda>x. x \<noteq> None) (map (\<lambda>s. replacement (conv s)) ss))
     = length (filter (\<lambda>s. \<not> isl (conv s)) ss)"
  by (induction ss) (auto simp: replacement_def split: sum.splits)

lemma status_message_one:
  "status_message kind (Suc 0) = Some (''Skipped 1 invalid '' @ kind @ '' value(s)!'')"
  by (simp add: status_message_def str_int_def sign_text_def digit_char_def)

text \<open>
  C7. Each selection of a batch is converted on its own. For every command body, every
  kind of value and every list of selections, the loop records for each selection the
  result of converting that selection alone, so a failure does not stop the selections
  after it, and it reports the number of selections that failed. Reordering the batch
  reorders the replacements with their selections and leaves the report unchanged. A
  batch of three selections of which exactly one is malformed reports one skip and makes
  two replacements, in every order. \<open>BinToDecCommand.run\<close> is this loop with its own body.
\<close>

theorem batch_failure_containment:
  "run_selections conv kind ss =
     (map (\<lambda>s. replacement (conv s)) ss,
      status_message kind (length (filter (\<lambda>s. isl (conv s)) ss)))
   \<and> (mset ss' = mset ss \<longrightarrow>
        snd (run_selections conv kind ss') = snd (run_selections conv kind ss)
        \<and> mset (zip ss' (fst (run_selections conv kind ss')))
            = mset (zip ss (fst (run_selections conv kind ss))))
   \<and> (mset ss = {#a, b, c#} \<and> \<not> isl (conv a) \<and> isl (conv b) \<and> \<not> isl (conv c) \<longrightarrow>
        snd (run_selections conv kind ss)
          = Some (''Skipped 1 invalid '' @ kind @ '' value(s)!'')
        \<and> length (filter (\<lambda>x. x \<noteq> None) (fst (run_selections conv kind ss))) = 2)
   \<and> (load_pattern re_compile v ''convert_src_bin'' CONVERT_SRC_BIN_DFLT = Inr r \<longrightarrow>
        BinToDecCommand_run re_compile v
          = Inr (run_selections (bin_to_dec_item r) ''binary'' (sel v)))"
proof (intro conjI impI)
  show "run_selections conv kind ss =
     (map (\<lambda>s. replacement (conv s)) ss,
      status_message kind (length (filter (\<lambda>s. isl (conv s)) ss)))"
    by (rule run_selections_eq)
next
  assume m: "mset ss' = mset ss"
  show "snd (run_selections conv kind ss') = snd (run_selections conv kind ss)"
    by (simp add: run_selections_eq length_filter_mset [OF m])
  show "mset (zip ss' (fst (run_selections conv kind ss')))
          = mset (zip ss (fst (run_selections conv kind ss)))"
    by (simp add: run_selections_eq zip_map_mset [OF m])
next
  assume h: "mset ss = {#a, b, c#} \<and> \<not> isl (conv a) \<and> isl (conv b) \<and> \<not> isl (conv c)"
  then have m: "mset ss = mset [a, b, c]" by simp
  have bad: "length (filter (\<lambda>s. isl (conv s)) ss) = 1"
    using h by (simp add: length_filter_mset [OF m])
  have good: "length (filter (\<lambda>s. \<not> isl (conv s)) ss) = 2"
    using h by (simp add: length_filter_mset [OF m])
  show "snd (run_selections conv kind ss)
          = Some (''Skipped 1 invalid '' @ kind @ '' value(s)!'')"
    by (simp add: run_selections_eq bad status_message_one)
  show "length (filter (\<lambda>x. x \<noteq> None) (fst (run_selections conv kind ss))) = 2"
    unfolding run_selections_eq fst_conv length_filter_replacement by (rule good)
next
  assume "load_pattern re_compile v ''convert_src_bin'' CONVERT_SRC_BIN_DFLT = Inr r"
  then show "BinToDecCommand_run re_compile v
               = Inr (run_selections (bin_to_dec_item r) ''binary'' (sel v))"
    by (simp add: BinToDecCommand_run_def)
qed

theorem batch_failure_containment_witness:
  "BinToDecCommand_run compile_builtin
     \<lparr>settings = Map.empty, sel = [selected ''101'', selected ''12'', selected ''11'']\<rparr>
     = Inr ([Some ''5'', None, Some ''3''], Some ''Skipped 1 invalid binary value(s)!'')
   \<and> BinToDecCommand_run compile_builtin
     \<lparr>settings = Map.empty, sel = [selected ''12'', selected ''11'', selected ''101'']\<rparr>
     = Inr ([None, Some ''3'', Some ''5''], Some ''Skipped 1 invalid binary value(s)!'')
   \<and> BinToDecCommand_run compile_builtin
     \<lparr>settings = Map.empty,
        sel = [selected ''101'', selected ''xyz'', selected ''12'', selected ''11'']\<rparr>
     = Inr ([Some ''5'', None, None, Some ''3''], Some ''Skipped 2 invalid binary value(s)!'')"
proof -
  let ?conv = "bin_to_dec_item bin_regex_dflt"
  have lp: "load_pattern compile_builtin \<lparr>settings = Map.empty, sel = ss\<rparr>
              ''convert_src_bin'' CONVERT_SRC_BIN_DFLT = Inr bin_regex_dflt" for ss
    by (simp add: load_pattern_def settings_get_def compile_setting_def compile_builtin_def)
  have a: "?conv (selected ''101'') = Inr ''5''"
    by code_simp
  have b: "?conv (selected ''12'') = Inl AttributeError"
    by code_simp
  have c: "?conv (selected ''11'') = Inr ''3''"
    by code_simp
  have d: "?conv (selected ''xyz'') = Inl AttributeError"
    by code_simp
  have two: "status_message ''binary'' (Suc (Suc 0)) = Some ''Skipped 2 invalid binary value(s)!''"
    by code_simp
  have one: "status_message ''binary'' (Suc 0) = Some ''Skipped 1 invalid binary value(s)!''"
    by code_simp
  note t = batch_failure_containment [where conv = ?conv and kind = "''binary''"
      and re_compile = compile_builtin and r = bin_regex_dflt
      and a = "selected ''101''" and b = "selected ''12''" and c = "selected ''11''"]
  have r1: "BinToDecCommand_run compile_builtin
     \<lparr>settings = Map.empty, sel = [selected ''101'', selected ''12'', selected ''11'']\<rparr>
     = Inr ([Some ''5'', None, Some ''3''], Some ''Skipped 1 invalid binary value(s)!'')"
    using t [where ss = "[selected ''101'', selected ''12'', selected ''11'']"
          and ss' = "[selected ''12'', selected ''11'', selected ''101'']"
          and v = "\<lparr>settings = Map.empty,
                     sel = [selected ''101'', selected ''12'', selected ''11'']\<rparr>"]
    by (simp add: lp a b c one replacement_def)
  have r2: "BinToDecCommand_run compile_builtin
     \<lparr>settings = Map.empty, sel = [selected ''12'', selected ''11'', selected ''101'']\<rparr>
     = Inr ([None, Some ''3'', Some ''5''], Some ''Skipped 1 invalid binary value(s)!'')"
    using t [where ss = "[selected ''12'', selected ''11'', selected ''101'']"
          and ss' = "[selected ''101'', selected ''12'', selected ''11'']"
          and v = "\<lparr>settings = Map.empty,
                     sel = [selected ''12'', selected ''11'', selected ''101'']\<rparr>"]
    by (simp add: lp a b c one replacement_def)
  have r3: "BinToDecCommand_run compile_builtin
     \<lparr>settings = Map.empty,
        sel = [selected ''101'', selected ''xyz'', selected ''12'', selected ''11'']\<rparr>
     = Inr ([Some ''5'', None, None, Some ''3''], Some ''Skipped 2 invalid binary value(s)!'')"
    using t [where ss = "[selected ''101'', selected ''xyz'', selected ''12'', selected ''11'']"
          and ss' = "[]"
          and v = "\<lparr>settings = Map.empty,
                     sel = [selected ''101'', selected ''xyz'', selected ''12'', selected ''11'']\<rparr>"]
    by (simp add: lp a b c d two replacement_def)
  show ?thesis using r1 r2 r3 by simp
qed

section \<open>Rendering and parsing back\<close>

declare to_digits.simps [simp del]

lemma less_16_cases:
  "d < 16 \<Longrightarrow> d \<in> {0, 1, 2, 3, 4, 5, 6, 7, 8, 9, 10, 11, 12, 13, 14, 15::nat}"
  by simp arith

lemma digit_val_digit_char: "d < 16 \<Longrightarrow> digit_val (digit_char d) = Some d"
  by (drule less_16_cases) (auto simp: digit_char_def digit_val_def code_def)

lemma is_hex_digit_char: "d < 16 \<Longrightarrow> is_hex (digit_char d)"
  by (drule less_16_cases) (auto simp: digit_char_def is_hex_def code_def)

lemma is_bin_digit_char: "d < 2 \<Longrightarrow> is_bin (digit_char d)"
  by (cases d) (auto simp: digit_char_def is_bin_def)

lemma is_hex_is_word: "is_hex c \<Longrightarrow> is_word c"
  by (auto simp: is_hex_def is_word_def Let_def)

lemma is_bin_is_word: "is_bin c \<Longrightarrow> is_word c"
  by (auto simp: is_bin_def is_word_def code_def)

lemma to_digits_nonempty: "2 \<le> base \<Longrightarrow> to_digits base n \<noteq> []"
  by (subst to_digits.simps) simp

lemma to_digits_all:
  assumes "2 \<le> base" and "\<And>d. d < base \<Longrightarrow> P (digit_char d)"
  shows "list_all P (to_digits base n)"
  using assms
proof (induction base n rule: to_digits.induct)
  case (1 base n)
  show ?case
  proof (cases "n < base")
    case True
    then show ?thesis using 1 by (subst to_digits.simps) simp
  next
    case False
    have "n mod base < base" using 1(2) by simp
    then show ?thesis
      using 1 False by (subst to_digits.simps) simp
  qed
qed

lemma digits_value_to_digits:
  assumes "2 \<le> base" "base \<le> 16"
  shows "digits_value base (to_digits base n) = n"
  using assms
proof (induction base n rule: to_digits.induct)
  case (1 base n)
  show ?case
  proof (cases "n < base")
    case True
    then have "n < 16" using 1(3) by simp
    then show ?thesis
      using 1 True
      by (subst to_digits.simps) (simp add: digits_value_def digit_val_digit_char)
  next
    case False
    have m: "n mod base < 16" using 1(2,3)
      by (meson less_le_trans mod_less_divisor not_less zero_less_numeral le_trans
          pos2 less_le_trans)
    have ih: "digits_value base (to_digits base (n div base)) = n div base"
      using 1 False by simp
    show ?thesis
      using 1(2) False ih m
      by (subst to_digits.simps) (simp add: digits_value_def digit_val_digit_char)
  qed
qed

lemma takeWhile_all: "list_all P xs \<Longrightarrow> takeWhile P xs = xs"
  by (induction xs) auto

lemma dropWhile_all: "list_all P xs \<Longrightarrow> dropWhile P xs = []"
  by (induction xs) auto

lemma bin_body_digits:
  assumes "t \<noteq> []" "list_all is_bin t"
  shows "bin_body t = Some t"
proof -
  have "is_bin (last t)" using assms by (simp add: list_all_iff)
  then have "is_word (last t)" by (rule is_bin_is_word)
  then show ?thesis
    using assms
    by (simp add: bin_body_def takeWhile_all dropWhile_all word_boundary_def first_char_def)
qed

lemma hex_body_digits:
  assumes "t \<noteq> []" "list_all is_hex t"
  shows "hex_body t = Some t"
proof -
  have "is_hex (last t)" using assms by (simp add: list_all_iff)
  then have "is_word (last t)" by (rule is_hex_is_word)
  then show ?thesis
    using assms
    by (simp add: hex_body_def takeWhile_all dropWhile_all word_boundary_def first_char_def)
qed

lemma match_bin_dflt_digits:
  assumes "t \<noteq> []" "list_all is_bin t"
  shows "match_bin_dflt t = Some \<lparr>groups = [t], group_names = []\<rparr>"
proof -
  obtain c cs where t: "t = c # cs" using assms(1) by (cases t) auto
  have w: "is_word c" using assms(2) t by (simp add: is_bin_is_word)
  have "take 2 t \<noteq> ''0b''"
  proof (cases cs)
    case Nil
    then show ?thesis by (simp add: t)
  next
    case (Cons c1 r)
    then have "is_bin c1" using assms(2) t by simp
    then show ?thesis by (auto simp: t Cons is_bin_def)
  qed
  then have np: "(if take 2 t = ''0b'' then bin_body (drop 2 t) else None) = None"
    by simp
  have wb: "word_boundary None (first_char t)"
    using w by (simp add: word_boundary_def first_char_def t)
  show ?thesis
    unfolding match_bin_dflt_def np by (simp add: wb bin_body_digits [OF assms])
qed

lemma match_hex_dflt_prefixed:
  assumes "t \<noteq> []" "list_all is_hex t"
  shows "match_hex_dflt (''0x'' @ t) = Some \<lparr>groups = [t], group_names = []\<rparr>"
  using hex_body_digits [OF assms]
  by (simp add: match_hex_dflt_def word_boundary_def first_char_def is_word_def code_def)

lemma digit_ok_digit_char: "base \<le> 16 \<Longrightarrow> d < base \<Longrightarrow> digit_ok base (digit_char d)"
  by (simp add: digit_ok_def digit_val_digit_char)

text \<open>
  C9. A non-negative integer rendered with the default binary destination format, then
  matched by the default binary source pattern and parsed in base 2, is the integer
  again; likewise with the default hexadecimal format, pattern and base 16. This holds
  for every non-negative integer, those of at most 64 bits among them.
\<close>

theorem render_parse_round_trip:
  assumes "0 \<le> n"
  shows "extract_int bin_regex_dflt 2 (format_bin_dflt n) = Inr n
         \<and> extract_int hex_regex_dflt 16 (format_hex_dflt n) = Inr n"
proof -
  define k where "k = nat n"
  have n: "n = int k" "nat \<bar>n\<bar> = k" "sign_text n = []"
    using assms by (simp_all add: k_def sign_text_def)
  have b_ne: "to_digits 2 k \<noteq> []" by (rule to_digits_nonempty) simp
  have b_bin: "list_all is_bin (to_digits 2 k)"
    by (rule to_digits_all) (simp_all add: is_bin_digit_char)
  have b_ok: "list_all (digit_ok 2) (to_digits 2 k)"
    by (rule to_digits_all) (simp_all add: digit_ok_digit_char)
  have b_int: "py_int (to_digits 2 k) 2 = Inr n"
    using py_int_digits [OF _ _ b_ne b_ok] by (simp add: digits_value_to_digits n(1))
  have h_ne: "to_digits 16 k \<noteq> []" by (rule to_digits_nonempty) simp
  have h_hex: "list_all is_hex (to_digits 16 k)"
    by (rule to_digits_all) (simp_all add: is_hex_digit_char)
  have h_ok: "list_all (digit_ok 16) (to_digits 16 k)"
    by (rule to_digits_all) (simp_all add: digit_ok_digit_char)
  have h_int: "py_int (to_digits 16 k) 16 = Inr n"
    using py_int_digits [OF _ _ h_ne h_ok] by (simp add: digits_value_to_digits n(1))
  have "extract_int bin_regex_dflt 2 (format_bin_dflt n) = Inr n"
    by (simp add: extract_int_def bin_regex_dflt_def format_bin_dflt_def n(2,3)
        match_bin_dflt_digits [OF b_ne b_bin] group_def b_int)
  moreover have "extract_int hex_regex_dflt 16 (format_hex_dflt n) = Inr n"
    using match_hex_dflt_prefixed [OF h_ne h_hex]
    by (simp add: extract_int_def hex_regex_dflt_def format_hex_dflt_def n(2,3)
        group_def h_int)
  ultimately show ?thesis by simp
qed

theorem render_parse_round_trip_witness:
  "(0::int) \<le> 18446744073709551615
   \<and> format_bin_dflt 5 = ''101'' \<and> format_hex_dflt 255 = ''0xff''
   \<and> extract_int bin_regex_dflt 2 (format_bin_dflt 18446744073709551615)
        = Inr 18446744073709551615
   \<and> extract_int hex_regex_dflt 16 (format_hex_dflt 18446744073709551615)
        = Inr 18446744073709551615"
proof -
  have a: "format_bin_dflt 5 = ''101''" by code_simp
  have b: "format_hex_dflt 255 = ''0xff''" by code_simp
  show ?thesis
    using render_parse_round_trip [of 18446744073709551615] a b by simp
qed

section \<open>Normalising zero\<close>

lemma multiply_loop_fixed_point:
  assumes "lt_one ops z" and "mul_ten ops z = z"
  shows "multiply_loop ops z ex = None"
proof (rule ccontr)
  assume "multiply_loop ops z ex \<noteq> None"
  then obtain r where r: "multiply_loop ops z ex = Some r" by auto
  have "\<not> (ops = ops \<and> z = z)"
  proof (rule multiply_loop.raw_induct
      [where P = "\<lambda>ops' b e r'. \<not> (ops' = ops \<and> b = z)", OF _ r])
    fix f ops' b e r'
    assume ih: "\<And>ops'' b' e' y. f ops'' b' e' = Some y \<Longrightarrow> \<not> (ops'' = ops \<and> b' = z)"
      and step: "(if lt_one ops' b then f ops' (mul_ten ops' b) (e - 1) else Some (b, e))
                   = Some r'"
    show "\<not> (ops' = ops \<and> b = z)"
    proof
      assume "ops' = ops \<and> b = z"
      with step assms have "f ops z (e - 1) = Some r'" by simp
      from ih [OF this] show False by simp
    qed
  qed
  then show False by simp
qed

text \<open>
  C6. The claim is that every conversion ends. The theorem shows where the code does
  not: on a value that is below one, not above ten and unchanged by multiplying by ten,
  as the float zero is, the second loop of \<open>DecToExpCommand.run\<close> never exits.
\<close>

theorem normalize_zero_diverges:
  assumes "\<not> gt_ten ops z" and "lt_one ops z" and "mul_ten ops z = z"
  shows "dec_to_exp_normalize ops z = None"
proof -
  have "divide_loop ops z 0 = Some (z, 0)"
    using assms(1) by (subst divide_loop.simps) simp
  then show ?thesis
    by (simp add: dec_to_exp_normalize_def multiply_loop_fixed_point [OF assms(2,3)])
qed

theorem normalize_zero_diverges_witness:
  "\<not> gt_ten exact_ops 0 \<and> lt_one exact_ops 0 \<and> mul_ten exact_ops 0 = 0
   \<and> dec_to_exp_normalize exact_ops 0 = None"
  using normalize_zero_diverges [of exact_ops 0] by (simp add: exact_ops_def)

section \<open>Decimal results that need no rounding\<close>

declare ndigits.simps [simp del]

lemma ndigits_le:
  "\<bar>c\<bar> < 10 ^ k \<Longrightarrow> 0 < k \<Longrightarrow> ndigits c \<le> k"
proof (induction k arbitrary: c)
  case 0
  then show ?case by simp
next
  case (Suc k)
  show ?case
  proof (cases "\<bar>c\<bar> < 10")
    case True
    then show ?thesis by (subst ndigits.simps) simp
  next
    case False
    then have k: "0 < k" using Suc.prems by (cases k) auto
    have "\<bar>c\<bar> div 10 < 10 ^ k" using Suc.prems by simp
    moreover have "0 \<le> \<bar>c\<bar> div 10" by simp
    ultimately have "\<bar>\<bar>c\<bar> div 10\<bar> < 10 ^ k" by simp
    from Suc.IH [OF this k] show ?thesis
      using False by (subst ndigits.simps) simp
  qed
qed

lemma ndigits_gt:
  "10 ^ k \<le> \<bar>c\<bar> \<Longrightarrow> k < ndigits c"
proof (induction k arbitrary: c)
  case 0
  then show ?case by (subst ndigits.simps) simp
next
  case (Suc k)
  have big: "\<not> \<bar>c\<bar> < 10"
  proof -
    from Suc.prems have "10 * 10 ^ k \<le> \<bar>c\<bar>" by simp
    moreover have "(1::int) \<le> 10 ^ k" by simp
    ultimately show ?thesis by linarith
  qed
  have "10 ^ k \<le> \<bar>c\<bar> div 10" using Suc.prems by simp
  then have "10 ^ k \<le> \<bar>\<bar>c\<bar> div 10\<bar>" by simp
  from Suc.IH [OF this] show ?case
    using big by (subst ndigits.simps) simp
qed

lemma ndigits_eq:
  assumes "10 ^ k \<le> \<bar>c\<bar>" and "\<bar>c\<bar> < 10 ^ Suc k"
  shows "ndigits c = Suc k"
  using ndigits_gt [OF assms(1)] ndigits_le [OF assms(2)] by simp

lemma ndigits_pos: "0 < ndigits c"
  by (subst ndigits.simps) simp

lemma less_pow_ndigits: "\<bar>c\<bar> < 10 ^ ndigits c"
  using ndigits_gt [of "ndigits c" c] by (cases "\<bar>c\<bar> < 10 ^ ndigits c") simp_all

lemma pow_ndigits_le:
  assumes "c \<noteq> 0"
  shows "10 ^ (ndigits c - 1) \<le> \<bar>c\<bar>"
proof (cases "ndigits c - 1 = 0")
  case True
  then show ?thesis using assms by simp
next
  case False
  show ?thesis
  proof (rule ccontr)
    assume "\<not> 10 ^ (ndigits c - 1) \<le> \<bar>c\<bar>"
    then have "\<bar>c\<bar> < 10 ^ (ndigits c - 1)" by simp
    from ndigits_le [OF this] False have "ndigits c \<le> ndigits c - 1" by simp
    then show False using False by simp
  qed
qed

lemma decimal_eq: "\<lparr>coeff = coeff d, expo = expo d\<rparr> = (d::decimal)"
  by simp

lemma dec_fix_exact:
  assumes "\<bar>coeff d\<bar> < 10 ^ 128" and "- 1000 \<le> expo d" and "expo d \<le> 0"
  shows "dec_fix ctx128 d = Inr d"
proof (cases "coeff d = 0")
  case True
  then have "d = \<lparr>coeff = 0, expo = expo d\<rparr>" by (metis decimal_eq)
  then show ?thesis
    using True assms(2,3) by (simp add: dec_fix_def ctx128_def Etiny_def)
next
  case False
  have "ndigits (coeff d) \<le> 128" using assms(1) by (rule ndigits_le) simp
  then show ?thesis
    using False assms(2,3)
    by (simp add: dec_fix_def ctx128_def Etiny_def Etop_def Let_def)
qed

lemma dec_val_aligned:
  assumes "e \<le> ea" and "e \<le> eb"
  shows "dec_val \<lparr>coeff = a * 10 ^ nat (ea - e) + b * 10 ^ nat (eb - e), expo = e\<rparr>
           = of_int a * 10 powi ea + of_int b * 10 powi eb"
proof -
  have p: "(10::rat) powi e * 10 ^ nat (x - e) = 10 powi x" if "e \<le> x" for x
  proof -
    have "(10::rat) ^ nat (x - e) = 10 powi (x - e)" using that by (simp add: power_int_def)
    then show ?thesis by (simp add: power_int_add [symmetric])
  qed
  show ?thesis
    by (simp add: dec_val_def algebra_simps p [OF assms(1)] p [OF assms(2)])
qed

lemma dec_val_coeff:
  assumes "expo d \<le> 0"
  shows "of_int (coeff d) = dec_val d * 10 ^ nat (- expo d)"
proof -
  have "(10::rat) powi expo d * 10 ^ nat (- expo d) = 1"
    using assms by (simp add: power_int_def power_inverse [symmetric] field_simps)
  then show ?thesis by (simp add: dec_val_def mult.assoc)
qed

lemma dec_add_exact:
  assumes x: "- 1000 \<le> expo x" "expo x \<le> 0" and y: "- 1000 \<le> expo y" "expo y \<le> 0"
    and bound: "\<bar>dec_val x + dec_val y\<bar> * 10 ^ nat (- min (expo x) (expo y)) < 10 ^ 128"
  shows "\<exists>s. dec_add ctx128 x y = Inr s \<and> dec_val s = dec_val x + dec_val y
             \<and> expo s = min (expo x) (expo y)"
proof -
  define e where "e = min (expo x) (expo y)"
  define s where "s = \<lparr>coeff = coeff x * 10 ^ nat (expo x - e) + coeff y * 10 ^ nat (expo y - e),
                        expo = e\<rparr>"
  have e: "e \<le> expo x" "e \<le> expo y" "- 1000 \<le> e" "e \<le> 0"
    using x y by (simp_all add: e_def)
  have v: "dec_val s = dec_val x + dec_val y"
    unfolding s_def using dec_val_aligned [OF e(1,2)] by (simp add: dec_val_def)
  have es: "expo s = e" by (simp add: s_def)
  have "of_int \<bar>coeff s\<bar> = \<bar>dec_val s\<bar> * (10::rat) ^ nat (- expo s)"
    using dec_val_coeff [of s] e(4) es by (simp add: abs_mult)
  also have "\<dots> < 10 ^ 128" using bound by (simp add: v es e_def)
  finally have "(of_int \<bar>coeff s\<bar> :: rat) < of_int (10 ^ 128)" by simp
  then have c: "\<bar>coeff s\<bar> < 10 ^ 128" by (simp only: of_int_less_iff)
  have "dec_fix ctx128 s = Inr s"
    using c e(3,4) es by (intro dec_fix_exact) simp_all
  then have "dec_add ctx128 x y = Inr s"
    by (simp add: dec_add_def Let_def s_def e_def)
  then show ?thesis using v es by (auto simp: e_def)
qed

lemma pow5_bound:
  assumes "(5::rat) ^ n < 10 ^ 128"
  shows "n \<le> 183"
proof (rule ccontr)
  assume "\<not> n \<le> 183"
  then have "184 \<le> n" by simp
  then have "(5::rat) ^ 184 \<le> 5 ^ n" by (intro power_increasing) simp_all
  moreover have "(10::rat) ^ 128 < 5 ^ 184" by simp
  ultimately show False using assms by linarith
qed

lemma pow2_bound:
  assumes "(2::rat) ^ n < 10 ^ 128"
  shows "n \<le> 425"
proof (rule ccontr)
  assume "\<not> n \<le> 425"
  then have "426 \<le> n" by simp
  then have "(2::rat) ^ 426 \<le> 2 ^ n" by (intro power_increasing) simp_all
  moreover have "(10::rat) ^ 128 < 2 ^ 426" by simp
  ultimately show False using assms by linarith
qed

lemma dec_pow2_neg_exact:
  assumes "0 < n" and "(5::rat) ^ n < 10 ^ 128"
  shows "dec_pow2 ctx128 (- int n) = Inr \<lparr>coeff = 5 ^ n, expo = - int n\<rparr>"
proof -
  have n: "n \<le> 183" using assms(2) by (rule pow5_bound)
  have "(of_int (5 ^ n) :: rat) < of_int (10 ^ 128)" using assms(2) by simp
  then have "(5::int) ^ n < 10 ^ 128" by (simp only: of_int_less_iff)
  then have "dec_fix ctx128 \<lparr>coeff = 5 ^ n, expo = - int n\<rparr> = Inr \<lparr>coeff = 5 ^ n, expo = - int n\<rparr>"
    using n by (intro dec_fix_exact) simp_all
  then show ?thesis using assms(1) by (simp add: dec_pow2_def)
qed

lemma dec_val_pow5: "dec_val \<lparr>coeff = 5 ^ n, expo = - int n\<rparr> = 1 / 2 ^ n"
proof -
  have "(10::rat) ^ n = 5 ^ n * 2 ^ n" by (simp add: power_mult_distrib [symmetric])
  then show ?thesis
    by (simp add: dec_val_def power_int_minus field_simps)
qed

lemma dec_pow2_pos_exact:
  assumes "(2::rat) ^ n < 10 ^ 128"
  shows "dec_pow2 ctx128 (int n) = Inr \<lparr>coeff = 2 ^ n, expo = 0\<rparr>"
proof -
  have "(of_int (2 ^ n) :: rat) < of_int (10 ^ 128)" using assms by simp
  then have "(2::int) ^ n < 10 ^ 128" by (simp only: of_int_less_iff)
  then have "dec_fix ctx128 \<lparr>coeff = 2 ^ n, expo = 0\<rparr> = Inr \<lparr>coeff = 2 ^ n, expo = 0\<rparr>"
    by (intro dec_fix_exact) simp_all
  then show ?thesis by (simp add: dec_pow2_def)
qed

lemma dec_neg_pow2_exact:
  assumes "(2::rat) ^ p < 10 ^ 128"
  shows "dec_neg ctx128 \<lparr>coeff = 2 ^ p, expo = 0\<rparr> = Inr \<lparr>coeff = - (2 ^ p), expo = 0\<rparr>"
proof -
  have "(of_int (2 ^ p) :: rat) < of_int (10 ^ 128)" using assms by simp
  then have "(2::int) ^ p < 10 ^ 128" by (simp only: of_int_less_iff)
  then have "\<bar>- ((2::int) ^ p)\<bar> < 10 ^ 128" by simp
  then have "dec_fix ctx128 \<lparr>coeff = - (2 ^ p), expo = 0\<rparr> = Inr \<lparr>coeff = - (2 ^ p), expo = 0\<rparr>"
    by (intro dec_fix_exact) simp_all
  then show ?thesis by (simp add: dec_neg_def)
qed

section \<open>The fractional digits\<close>

lemma frac_value_Nil: "frac_value j [] = 0"
  by (simp add: frac_value_def)

lemma frac_value_Cons:
  "frac_value j (c # F) = (if c = CHR ''1'' then 1 / 2 ^ (j + 1) else 0) + frac_value (Suc j) F"
  by (simp add: frac_value_def)

lemma frac_value_nonneg: "0 \<le> frac_value j F"
  by (induction F arbitrary: j) (simp_all add: frac_value_Nil frac_value_Cons)

lemma frac_value_no_one: "sig_frac F = 0 \<Longrightarrow> frac_value j F = 0"
  by (induction F arbitrary: j) (simp_all add: frac_value_Nil frac_value_Cons split: if_splits)

lemma frac_value_last_one:
  "0 < sig_frac F \<Longrightarrow> 1 / 2 ^ (j + sig_frac F) \<le> frac_value j F"
proof (induction F arbitrary: j)
  case Nil
  then show ?case by simp
next
  case (Cons c F)
  show ?case
  proof (cases "0 < sig_frac F")
    case True
    have "1 / 2 ^ (Suc j + sig_frac F) \<le> frac_value (Suc j) F" by (rule Cons.IH [OF True])
    moreover have "0 \<le> (if c = CHR ''1'' then 1 / (2::rat) ^ (j + 1) else 0)" by simp
    ultimately show ?thesis using True by (simp add: frac_value_Cons)
  next
    case False
    then have c: "c = CHR ''1''" using Cons.prems by (simp split: if_splits)
    have "0 \<le> frac_value (Suc j) F" by (rule frac_value_nonneg)
    then show ?thesis using False c by (simp add: frac_value_Cons)
  qed
qed

lemma pow10_mono_rat: "m \<le> n \<Longrightarrow> (10::rat) ^ m \<le> 10 ^ n"
  by (rule power_increasing) simp_all

lemma scaled_le:
  assumes "0 \<le> a" and "a \<le> b" and "m \<le> n"
  shows "a * (10::rat) ^ m \<le> b * 10 ^ n"
proof -
  have "a * (10::rat) ^ m \<le> b * 10 ^ m" using assms(2) by (intro mult_right_mono) simp_all
  also have "\<dots> \<le> b * 10 ^ n"
    using assms pow10_mono_rat [OF assms(3)] by (intro mult_left_mono) simp_all
  finally show ?thesis .
qed

lemma pow5_scaled: "1 / (2::rat) ^ n * 10 ^ n = 5 ^ n"
proof -
  have "(10::rat) ^ n = 5 ^ n * 2 ^ n" by (simp add: power_mult_distrib [symmetric])
  then show ?thesis by simp
qed

lemma frac_loop_exact:
  assumes "expo w \<le> 0" and "- int j \<le> expo w" and "0 \<le> dec_val w"
    and "0 < sig_frac F \<Longrightarrow>
           (dec_val w + frac_value j F) * 10 ^ (j + sig_frac F) < 10 ^ 128"
  shows "\<exists>w'. frac_loop ctx128 (enumerate j F) w = Inr w'
             \<and> dec_val w' = dec_val w + frac_value j F
             \<and> expo w' = (if sig_frac F = 0 then expo w else - int (j + sig_frac F))"
  using assms
proof (induction F arbitrary: j w)
  case Nil
  then show ?case by (simp add: frac_value_Nil)
next
  case (Cons c F)
  show ?case
  proof (cases "c = CHR ''1''")
    case False
    have ej: "- int (Suc j) \<le> expo w" using Cons.prems(2) by simp
    have fv0: "frac_value j (c # F) = frac_value (Suc j) F"
      using False by (simp add: frac_value_Cons)
    have b: "(dec_val w + frac_value (Suc j) F) * 10 ^ (Suc j + sig_frac F) < 10 ^ 128"
      if pos: "0 < sig_frac F"
    proof -
      have sf: "j + sig_frac (c # F) = Suc j + sig_frac F" using pos by simp
      have "0 < sig_frac (c # F)" using pos by simp
      from Cons.prems(4) [OF this] show ?thesis unfolding sf fv0 .
    qed
    from Cons.IH [OF Cons.prems(1) ej Cons.prems(3) b]
    obtain w' where w': "frac_loop ctx128 (enumerate (Suc j) F) w = Inr w'"
      "dec_val w' = dec_val w + frac_value (Suc j) F"
      "expo w' = (if sig_frac F = 0 then expo w else - int (Suc j + sig_frac F))"
      by blast
    show ?thesis using w' False by (simp add: frac_value_Cons)
  next
    case True
    define L where "L = Suc j + sig_frac F"
    have sf: "j + sig_frac (c # F) = L" using True by (simp add: L_def)
    have pos: "0 < sig_frac (c # F)" using True by simp
    have total: "(dec_val w + frac_value j (c # F)) * 10 ^ L < 10 ^ 128"
      using Cons.prems(4) [OF pos] unfolding sf .
    have fv: "frac_value j (c # F) = 1 / 2 ^ Suc j + frac_value (Suc j) F"
      using True by (simp add: frac_value_Cons)
    have rest_ge: "0 \<le> frac_value (Suc j) F" by (rule frac_value_nonneg)
    define p where "p = \<lparr>coeff = 5 ^ Suc j, expo = - int (Suc j)\<rparr>"
    have pv: "dec_val p = 1 / 2 ^ Suc j" unfolding p_def by (rule dec_val_pow5)
    have pe: "expo p = - int (Suc j)" by (simp add: p_def)
    have sum_ge: "0 \<le> dec_val w + dec_val p" using Cons.prems(3) pv by simp
    have sum_le: "dec_val w + dec_val p \<le> dec_val w + frac_value j (c # F)"
      using rest_ge pv fv by simp
    have jL: "Suc j \<le> L" by (simp add: L_def)
    have "(dec_val w + dec_val p) * 10 ^ Suc j \<le> (dec_val w + frac_value j (c # F)) * 10 ^ L"
      using sum_ge sum_le jL by (rule scaled_le)
    then have step: "(dec_val w + dec_val p) * 10 ^ Suc j < 10 ^ 128"
      using total by linarith
    have ple: "dec_val p * 10 ^ Suc j \<le> (dec_val w + dec_val p) * 10 ^ Suc j"
      using Cons.prems(3) by (intro mult_right_mono) simp_all
    have "dec_val p * 10 ^ Suc j = 5 ^ Suc j" unfolding pv by (rule pow5_scaled)
    then have p5: "(5::rat) ^ Suc j < 10 ^ 128"
      using step ple by linarith
    have j183: "Suc j \<le> 183" using p5 by (rule pow5_bound)
    have pw: "dec_pow2 ctx128 (- int j - 1) = Inr p"
    proof -
      have e: "- int j - 1 = - int (Suc j)" by simp
      have "dec_pow2 ctx128 (- int (Suc j)) = Inr p"
        unfolding p_def using p5 by (intro dec_pow2_neg_exact) simp_all
      then show ?thesis by (simp only: e)
    qed
    have m: "min (expo w) (expo p) = - int (Suc j)"
      using Cons.prems(2) pe by simp
    have nm: "nat (- min (expo w) (expo p)) = Suc j" using m by simp
    have abs_eq: "\<bar>dec_val w + dec_val p\<bar> = dec_val w + dec_val p" using sum_ge by simp
    have bound: "\<bar>dec_val w + dec_val p\<bar> * 10 ^ nat (- min (expo w) (expo p)) < 10 ^ 128"
      using step by (simp only: nm abs_eq)
    have "\<exists>s. dec_add ctx128 w p = Inr s \<and> dec_val s = dec_val w + dec_val p
              \<and> expo s = min (expo w) (expo p)"
      using Cons.prems(1,2) j183 pe bound by (intro dec_add_exact) simp_all
    then obtain s where s: "dec_add ctx128 w p = Inr s"
      "dec_val s = dec_val w + dec_val p" "expo s = - int (Suc j)"
      using m by auto
    have eq: "dec_val s + frac_value (Suc j) F = dec_val w + frac_value j (c # F)"
      by (simp add: s(2) pv fv)
    have b: "(dec_val s + frac_value (Suc j) F) * 10 ^ (Suc j + sig_frac F) < 10 ^ 128"
      using total unfolding eq L_def .
    have "\<exists>w'. frac_loop ctx128 (enumerate (Suc j) F) s = Inr w'
             \<and> dec_val w' = dec_val s + frac_value (Suc j) F
             \<and> expo w' = (if sig_frac F = 0 then expo s else - int (Suc j + sig_frac F))"
      using s(3) sum_ge s(2) b by (intro Cons.IH) simp_all
    then obtain w' where w': "frac_loop ctx128 (enumerate (Suc j) F) s = Inr w'"
      "dec_val w' = dec_val s + frac_value (Suc j) F"
      "expo w' = (if sig_frac F = 0 then expo s else - int (Suc j + sig_frac F))"
      by blast
    show ?thesis
      using w' True pw s pv
      by (simp add: frac_value_Cons)
  qed
qed

section \<open>Values of at most 128 significant digits\<close>

lemma pow5_mod10: "(5::int) ^ Suc n mod 10 = 5"
proof (induction n)
  case 0
  then show ?case by simp
next
  case (Suc n)
  have "(5::int) ^ Suc (Suc n) mod 10 = (5 * (5 ^ Suc n mod 10)) mod 10"
    by (simp only: power_Suc [of _ "Suc n"] mod_mult_right_eq)
  then show ?case by (simp only: Suc.IH) simp
qed

lemma frac_scaled_int:
  "0 < sig_frac F \<Longrightarrow>
   \<exists>N::int. frac_value j F * 10 ^ (j + sig_frac F) = of_int N \<and> N mod 10 = 5"
proof (induction F arbitrary: j)
  case Nil
  then show ?case by simp
next
  case (Cons c F)
  show ?case
  proof (cases "0 < sig_frac F")
    case True
    from Cons.IH [OF True, of "Suc j"] obtain N' :: int
      where N': "frac_value (Suc j) F * 10 ^ (Suc j + sig_frac F) = of_int N'" "N' mod 10 = 5"
      by blast
    obtain s where s: "sig_frac F = Suc s" using True by (cases "sig_frac F") auto
    define B :: int where "B = (if c = CHR ''1'' then 5 ^ Suc j * 10 ^ s else 0)"
    have sf: "j + sig_frac (c # F) = Suc j + sig_frac F" using True by simp
    have b: "(if c = CHR ''1'' then 1 / (2::rat) ^ (j + 1) else 0) * 10 ^ (Suc j + sig_frac F)
               = of_int (10 * B)"
    proof (cases "c = CHR ''1''")
      case False
      then show ?thesis by (simp add: B_def)
    next
      case c: True
      have "1 / (2::rat) ^ Suc j * 10 ^ (Suc j + sig_frac F)
              = (1 / 2 ^ Suc j * 10 ^ Suc j) * 10 ^ sig_frac F"
        by (simp only: power_add mult.assoc)
      also have "\<dots> = 5 ^ Suc j * 10 ^ Suc s" by (simp only: pow5_scaled s)
      also have "\<dots> = of_int (10 * (5 ^ Suc j * 10 ^ s))" by simp
      finally show ?thesis using c by (simp add: B_def)
    qed
    have "frac_value j (c # F) * 10 ^ (j + sig_frac (c # F)) = of_int (10 * B + N')"
      unfolding sf frac_value_Cons distrib_right b N'(1) by simp
    moreover have "(10 * B + N') mod 10 = 5" using N'(2) by simp
    ultimately show ?thesis by blast
  next
    case False
    then have c: "c = CHR ''1''" using Cons.prems by (simp split: if_splits)
    have z: "frac_value (Suc j) F = 0" using False by (intro frac_value_no_one) simp
    have sf: "j + sig_frac (c # F) = Suc j" using False c by simp
    have "frac_value j (c # F) * 10 ^ (j + sig_frac (c # F)) = 1 / 2 ^ Suc j * 10 ^ Suc j"
      unfolding sf using c z by (simp add: frac_value_Cons)
    also have "\<dots> = of_int (5 ^ Suc j)" by (simp only: pow5_scaled) simp
    finally show ?thesis using pow5_mod10 [of j] by blast
  qed
qed

lemma value_scaled_int:
  assumes "0 < sig_frac F"
  shows "\<exists>M::int. (of_int n + frac_value 0 F) * 10 ^ sig_frac F = of_int M \<and> M mod 10 = 5"
proof -
  from frac_scaled_int [OF assms, of 0] obtain N :: int
    where N: "frac_value 0 F * 10 ^ sig_frac F = of_int N" "N mod 10 = 5"
    by auto
  obtain s where s: "sig_frac F = Suc s" using assms by (cases "sig_frac F") auto
  have "(of_int n + frac_value 0 F) * 10 ^ sig_frac F
          = of_int n * 10 ^ Suc s + frac_value 0 F * 10 ^ sig_frac F"
    by (simp only: distrib_right s)
  also have "\<dots> = of_int (10 * (n * 10 ^ s) + N)" by (simp add: N(1))
  finally have "(of_int n + frac_value 0 F) * 10 ^ sig_frac F = of_int (10 * (n * 10 ^ s) + N)" .
  moreover have "(10 * (n * 10 ^ s) + N) mod 10 = 5" using N(2) by simp
  ultimately show ?thesis by blast
qed

lemma fits128_scaled:
  assumes "fits128 x" and "x * 10 ^ L = of_int M" and "M mod 10 = 5"
  shows "\<bar>M\<bar> < 10 ^ 128"
proof -
  obtain c e where c: "\<bar>c\<bar> < 10 ^ 128" and x: "x = of_int c * 10 powi e"
    using assms(1) by (auto simp: fits128_def)
  have M: "(of_int M :: rat) = of_int c * 10 powi (e + int L)"
    using assms(2) by (simp add: x power_int_add mult.assoc)
  show ?thesis
  proof (cases "e + int L \<le> 0")
    case True
    define k where "k = nat (- (e + int L))"
    have "(10::rat) powi (e + int L) * 10 ^ k = 1"
      using True by (simp add: k_def power_int_def power_inverse [symmetric] field_simps)
    then have "(of_int M :: rat) * 10 ^ k = of_int c"
      by (simp add: M mult.assoc)
    then have "(of_int (M * 10 ^ k) :: rat) = of_int c" by simp
    then have eq: "M * 10 ^ k = c" by (simp only: of_int_eq_iff)
    have "\<bar>M\<bar> * 1 \<le> \<bar>M\<bar> * 10 ^ k" by (intro mult_left_mono) simp_all
    also have "\<dots> = \<bar>M * 10 ^ k\<bar>" by (simp add: abs_mult)
    also have "\<dots> = \<bar>c\<bar>" by (simp only: eq)
    finally show ?thesis using c by simp
  next
    case False
    define k where "k = nat (e + int L) - 1"
    have k: "nat (e + int L) = Suc k" using False by (simp add: k_def)
    have "(10::rat) powi (e + int L) = 10 ^ Suc k"
      using False k by (simp add: power_int_def)
    then have "(of_int M :: rat) = of_int (c * 10 ^ Suc k)" by (simp add: M)
    then have "M = c * 10 ^ Suc k" by (simp only: of_int_eq_iff)
    then have "M mod 10 = 0" by simp
    then show ?thesis using assms(3) by simp
  qed
qed

section \<open>Unsigned fixed point\<close>

lemma UFixedToDecimal_exact:
  assumes I: "binary_digits I"
    and m: "matches ''int'' = Some I" "matches ''frac'' = Some F"
    and bound: "unsigned_value I F * 10 ^ sig_frac F < 10 ^ 128"
  shows "\<exists>d. UFixedToDecimal matches = Inr d \<and> dec_val d = unsigned_value I F
             \<and> expo d = - int (sig_frac F) \<and> sig_frac F \<le> 183"
proof -
  define n where "n = bin_value I"
  define f where "f = frac_value 0 F"
  define L where "L = sig_frac F"
  have pi: "py_int I 2 = Inr (int n)" using py_int_binary [OF I] by (simp add: n_def)
  have v: "unsigned_value I F = of_nat n + f" by (simp add: unsigned_value_def n_def f_def)
  have f0: "0 \<le> f" unfolding f_def by (rule frac_value_nonneg)
  have total: "(of_nat n + f) * 10 ^ L < 10 ^ 128" using bound unfolding v L_def .
  have "f * 10 ^ L \<le> (of_nat n + f) * 10 ^ L" by (intro mult_right_mono) simp_all
  then have fb: "f * 10 ^ L < 10 ^ 128" using total by linarith
  have L183: "L \<le> 183"
  proof (cases "0 < L")
    case False
    then show ?thesis by simp
  next
    case True
    then have "1 / 2 ^ (0 + sig_frac F) \<le> frac_value 0 F"
      unfolding L_def by (rule frac_value_last_one)
    then have "1 / 2 ^ L \<le> f" by (simp add: L_def f_def)
    then have "1 / 2 ^ L * 10 ^ L \<le> f * 10 ^ L" by (intro mult_right_mono) simp_all
    moreover have "1 / (2::rat) ^ L * 10 ^ L = 5 ^ L" by (rule pow5_scaled)
    ultimately have "(5::rat) ^ L < 10 ^ 128" using fb by linarith
    then show ?thesis by (rule pow5_bound)
  qed
  have z: "dec_val (Decimal 0) = 0" "expo (Decimal 0) = 0"
    by (simp_all add: Decimal_def dec_val_def)
  have lb: "0 < sig_frac F \<Longrightarrow>
              (dec_val (Decimal 0) + frac_value 0 F) * 10 ^ (0 + sig_frac F) < 10 ^ 128"
    using fb by (simp add: z f_def L_def)
  have "\<exists>w. frac_loop ctx128 (enumerate 0 F) (Decimal 0) = Inr w
             \<and> dec_val w = dec_val (Decimal 0) + frac_value 0 F
             \<and> expo w = (if sig_frac F = 0 then expo (Decimal 0) else - int (0 + sig_frac F))"
    using lb by (intro frac_loop_exact) (simp_all add: z)
  then obtain w where w: "frac_loop ctx128 (enumerate 0 F) (Decimal 0) = Inr w"
    "dec_val w = f" "expo w = - int L"
    by (auto simp: z f_def L_def)
  have nv: "dec_val (Decimal (int n)) = of_nat n" "expo (Decimal (int n)) = 0"
    by (simp_all add: Decimal_def dec_val_def)
  have e: "min (expo w) (expo (Decimal (int n))) = - int L"
    by (simp add: w(3) nv(2))
  have ne: "nat (- min (expo w) (expo (Decimal (int n)))) = L" by (simp add: e)
  have s0: "0 \<le> dec_val w + dec_val (Decimal (int n))" using f0 by (simp add: w(2) nv(1))
  have "\<bar>dec_val w + dec_val (Decimal (int n))\<bar> * 10 ^ L < 10 ^ 128"
    using total s0 by (simp add: w(2) nv(1) add.commute)
  then have ab: "\<bar>dec_val w + dec_val (Decimal (int n))\<bar>
                   * 10 ^ nat (- min (expo w) (expo (Decimal (int n)))) < 10 ^ 128"
    by (simp only: ne)
  have "\<exists>s. dec_add ctx128 w (Decimal (int n)) = Inr s
            \<and> dec_val s = dec_val w + dec_val (Decimal (int n))
            \<and> expo s = min (expo w) (expo (Decimal (int n)))"
    using L183 ab by (intro dec_add_exact) (simp_all add: w(3) nv(2))
  then obtain s where s: "dec_add ctx128 w (Decimal (int n)) = Inr s"
    "dec_val s = dec_val w + dec_val (Decimal (int n))"
    "expo s = min (expo w) (expo (Decimal (int n)))"
    by blast
  have "UFixedToDecimal matches = Inr s"
    by (simp add: UFixedToDecimal_def m pi w(1) s(1))
  moreover have "dec_val s = unsigned_value I F" by (simp add: s(2) v w(2) nv(1))
  moreover have "expo s = - int (sig_frac F)" using s(3) e by (simp add: L_def)
  ultimately show ?thesis using L183 by (auto simp: L_def)
qed

lemma dvd_div_val:
  assumes "(10::int) ^ k dvd c"
  shows "dec_val \<lparr>coeff = c div 10 ^ k, expo = int k\<rparr> = of_int c"
proof -
  have "c div 10 ^ k * 10 ^ k = c" using assms by simp
  then have "(of_int (c div 10 ^ k * 10 ^ k) :: rat) = of_int c" by (simp only:)
  then show ?thesis by (simp add: dec_val_def)
qed

lemma round_half_even_dvd:
  assumes "m dvd c" and "0 < m"
  shows "round_half_even c m = c div m"
  using assms by (simp add: round_half_even_def Let_def)

lemma dec_fix_trailing_zeros:
  assumes c0: "c \<noteq> 0" and fit: "fits128 (of_int c)" and nd: "ndigits c \<le> 1000000"
  shows "\<exists>d. dec_fix ctx128 \<lparr>coeff = c, expo = 0\<rparr> = Inr d \<and> dec_val d = of_int c"
proof (cases "ndigits c \<le> 128")
  case True
  have "\<bar>c\<bar> < 10 ^ ndigits c" by (rule less_pow_ndigits)
  also have "(10::int) ^ ndigits c \<le> 10 ^ 128" using True by (intro power_increasing) simp_all
  finally have "dec_fix ctx128 \<lparr>coeff = c, expo = 0\<rparr> = Inr \<lparr>coeff = c, expo = 0\<rparr>"
    by (intro dec_fix_exact) simp_all
  then show ?thesis by (simp add: dec_val_def)
next
  case False
  define k where "k = ndigits c - 128"
  have k: "ndigits c = k + 128" "0 < k" using False by (simp_all add: k_def)
  obtain q e where q: "\<bar>q\<bar> < 10 ^ 128" and ce: "(of_int c :: rat) = of_int q * 10 powi e"
    using fit by (auto simp: fits128_def)
  have "ndigits c - 1 = k + 127" using k(1) by simp
  then have low: "(10::int) ^ (k + 127) \<le> \<bar>c\<bar>"
    using pow_ndigits_le [OF c0] by (simp only:)
  have epos: "0 < e"
  proof (rule ccontr)
    assume "\<not> 0 < e"
    then have e: "e \<le> 0" by simp
    define j where "j = nat (- e)"
    have "(10::rat) powi e * 10 ^ j = 1"
      using e by (simp add: j_def power_int_def power_inverse [symmetric] field_simps)
    then have "(of_int c :: rat) * 10 ^ j = of_int q" by (simp add: ce mult.assoc)
    then have "(of_int (c * 10 ^ j) :: rat) = of_int q" by simp
    then have eq: "c * 10 ^ j = q" by (simp only: of_int_eq_iff)
    have "\<bar>c\<bar> * 1 \<le> \<bar>c\<bar> * 10 ^ j" by (intro mult_left_mono) simp_all
    also have "\<dots> = \<bar>c * 10 ^ j\<bar>" by (simp add: abs_mult)
    also have "\<dots> = \<bar>q\<bar>" by (simp only: eq)
    finally have "\<bar>c\<bar> < 10 ^ 128" using q by simp
    moreover have "(10::int) ^ 128 \<le> 10 ^ (k + 127)"
      using k(2) by (intro power_increasing) simp_all
    ultimately show False using low by linarith
  qed
  define j where "j = nat e"
  have "(10::rat) powi e = 10 ^ j" using epos by (simp add: j_def power_int_def)
  then have "(of_int c :: rat) = of_int (q * 10 ^ j)" by (simp add: ce)
  then have cq: "c = q * 10 ^ j" by (simp only: of_int_eq_iff)
  have kj: "k \<le> j"
  proof (rule ccontr)
    assume "\<not> k \<le> j"
    then have "j + 1 \<le> k" by simp
    have "\<bar>c\<bar> = \<bar>q\<bar> * 10 ^ j" by (simp add: cq abs_mult)
    also have "\<dots> < 10 ^ 128 * 10 ^ j" using q by (intro mult_strict_right_mono) simp_all
    also have "\<dots> = 10 ^ (j + 128)" by (simp add: power_add)
    also have "\<dots> \<le> 10 ^ (k + 127)"
      using \<open>j + 1 \<le> k\<close> by (intro power_increasing) simp_all
    finally show False using low by simp
  qed
  have dvd: "(10::int) ^ k dvd c"
  proof -
    have "(10::int) ^ k dvd 10 ^ j" using kj by (rule le_imp_power_dvd)
    then show ?thesis unfolding cq by (rule dvd_mult)
  qed
  have r: "round_half_even c (10 ^ k) = c div 10 ^ k"
    using dvd by (rule round_half_even_dvd) simp
  have "\<bar>c\<bar> < 10 ^ (k + 128)" using less_pow_ndigits [of c] by (simp only: k(1))
  then have "\<bar>c\<bar> < 10 ^ 128 * 10 ^ k" by (simp add: power_add)
  moreover have "\<bar>c div 10 ^ k\<bar> * 10 ^ k = \<bar>c\<bar>"
  proof -
    have "c div 10 ^ k * 10 ^ k = c" using dvd by simp
    then have "\<bar>c div 10 ^ k * 10 ^ k\<bar> = \<bar>c\<bar>" by (simp only:)
    then show ?thesis by (simp add: abs_mult)
  qed
  ultimately have "\<bar>c div 10 ^ k\<bar> * 10 ^ k < 10 ^ 128 * 10 ^ k" by simp
  then have "\<bar>c div 10 ^ k\<bar> < 10 ^ 128" by simp
  then have small: "ndigits (c div 10 ^ k) \<le> 128" by (rule ndigits_le) simp
  have em: "int (ndigits c) - 128 = int k"
    by (simp add: k(1))
  have top: "\<not> int k > Etop ctx128" using nd k(1) by (simp add: Etop_def ctx128_def)
  have mx: "max (int k) (Etiny ctx128) = int k" by (simp add: Etiny_def ctx128_def)
  have p: "prec ctx128 = 128" by (simp add: ctx128_def)
  have "dec_fix ctx128 \<lparr>coeff = c, expo = 0\<rparr> = Inr \<lparr>coeff = c div 10 ^ k, expo = int k\<rparr>"
    using c0 k(2) top small
    by (simp add: dec_fix_def Let_def em mx r p)
  then show ?thesis using dvd_div_val [OF dvd] by simp
qed

lemma UFixedToDecimal_integer:
  assumes I: "binary_digits I"
    and m: "matches ''int'' = Some I" "matches ''frac'' = Some F"
    and L: "sig_frac F = 0"
    and fit: "fits128 (of_nat (bin_value I))"
    and nd: "ndigits (int (bin_value I)) \<le> 1000000"
  shows "\<exists>d. UFixedToDecimal matches = Inr d \<and> dec_val d = of_nat (bin_value I)"
proof -
  define n where "n = bin_value I"
  have pi: "py_int I 2 = Inr (int n)" using py_int_binary [OF I] by (simp add: n_def)
  have z: "dec_val (Decimal 0) = 0" "expo (Decimal 0) = 0"
    by (simp_all add: Decimal_def dec_val_def)
  have "\<exists>w. frac_loop ctx128 (enumerate 0 F) (Decimal 0) = Inr w
             \<and> dec_val w = dec_val (Decimal 0) + frac_value 0 F
             \<and> expo w = (if sig_frac F = 0 then expo (Decimal 0) else - int (0 + sig_frac F))"
    using L by (intro frac_loop_exact) (simp_all add: z)
  then obtain w where w: "frac_loop ctx128 (enumerate 0 F) (Decimal 0) = Inr w"
    "dec_val w = 0" "expo w = 0"
    using L by (auto simp: z frac_value_no_one)
  have "coeff w = 0" using w(2,3) by (simp add: dec_val_def)
  then have w0: "w = Decimal 0" using w(3) by (simp add: Decimal_def)
  have add: "dec_add ctx128 (Decimal 0) (Decimal (int n))
               = dec_fix ctx128 \<lparr>coeff = int n, expo = 0\<rparr>"
    by (simp add: dec_add_def Decimal_def)
  have "\<exists>d. dec_fix ctx128 \<lparr>coeff = int n, expo = 0\<rparr> = Inr d \<and> dec_val d = of_int (int n)"
  proof (cases "n = 0")
    case True
    have "dec_fix ctx128 \<lparr>coeff = 0, expo = 0\<rparr> = Inr \<lparr>coeff = 0, expo = 0\<rparr>"
      by (intro dec_fix_exact) simp_all
    then show ?thesis using True by (simp add: dec_val_def)
  next
    case False
    show ?thesis
      using False fit nd by (intro dec_fix_trailing_zeros) (simp_all add: n_def)
  qed
  then obtain d where d: "dec_fix ctx128 \<lparr>coeff = int n, expo = 0\<rparr> = Inr d"
    "dec_val d = of_nat n"
    by auto
  have "UFixedToDecimal matches = Inr d"
    using w(1) by (simp add: UFixedToDecimal_def m pi w0 add d(1))
  then show ?thesis using d(2) by (auto simp: n_def)
qed

lemma UFixedToDecimal_fits:
  assumes I: "binary_digits I"
    and m: "matches ''int'' = Some I" "matches ''frac'' = Some F"
    and fit: "fits128 (unsigned_value I F)"
    and nd: "ndigits (int (bin_value I)) \<le> 1000000"
  shows "\<exists>d. UFixedToDecimal matches = Inr d \<and> dec_val d = unsigned_value I F"
proof (cases "0 < sig_frac F")
  case True
  obtain M :: int where M: "(of_int (int (bin_value I)) + frac_value 0 F) * 10 ^ sig_frac F
                              = of_int M" "M mod 10 = 5"
    using value_scaled_int [OF True] by blast
  have sc: "unsigned_value I F * 10 ^ sig_frac F = of_int M"
    using M(1) by (simp add: unsigned_value_def)
  have "\<bar>M\<bar> < 10 ^ 128" using fit sc M(2) by (rule fits128_scaled)
  then have "M < 10 ^ 128" by simp
  then have "(of_int M :: rat) < of_int (10 ^ 128)" by (simp only: of_int_less_iff)
  then have "unsigned_value I F * 10 ^ sig_frac F < 10 ^ 128" by (simp add: sc)
  from UFixedToDecimal_exact [OF I m this] show ?thesis by blast
next
  case False
  then have L: "sig_frac F = 0" by simp
  have v: "unsigned_value I F = of_nat (bin_value I)"
    by (simp add: unsigned_value_def frac_value_no_one [OF L])
  show ?thesis
    using UFixedToDecimal_integer [OF I m L _ nd] fit by (simp add: v)
qed

section \<open>Where the precision is exceeded\<close>

lemma frac_loop_zeros:
  "frac_loop ctx (enumerate j (replicate n (CHR ''0'') @ rest)) v
     = frac_loop ctx (enumerate (j + n) rest) v"
  by (induction n arbitrary: j) simp_all

lemma frac_value_zeros:
  "frac_value j (replicate n (CHR ''0'') @ rest) = frac_value (j + n) rest"
  by (induction n arbitrary: j) (simp_all add: frac_value_Cons)

lemma frac_loop_last_one:
  "frac_loop ctx128 (enumerate 0 (replicate 127 (CHR ''0'') @ ''1'')) (Decimal 0)
     = Inr \<lparr>coeff = 5 ^ 128, expo = - 128\<rparr>"
proof -
  have p: "dec_pow2 ctx128 (- 128) = Inr \<lparr>coeff = 5 ^ 128, expo = - 128\<rparr>"
    using dec_pow2_neg_exact [of 128] by simp
  have "\<bar>5 ^ 128 :: int\<bar> < 10 ^ 128" by simp
  then have f: "dec_fix ctx128 \<lparr>coeff = 5 ^ 128, expo = - 128\<rparr>
                  = Inr \<lparr>coeff = 5 ^ 128, expo = - 128\<rparr>"
    by (intro dec_fix_exact) simp_all
  have a: "dec_add ctx128 (Decimal 0) \<lparr>coeff = 5 ^ 128, expo = - 128\<rparr>
             = Inr \<lparr>coeff = 5 ^ 128, expo = - 128\<rparr>"
    using f by (simp add: dec_add_def Decimal_def)
  show ?thesis
    using p a by (simp add: frac_loop_zeros)
qed

lemma dec_fix_drop_digit:
  assumes "10 ^ 128 \<le> \<bar>c\<bar>" and "\<bar>c\<bar> < 10 ^ 129"
    and "10 ^ 127 \<le> \<bar>round_half_even c 10\<bar>" and "\<bar>round_half_even c 10\<bar> < 10 ^ 128"
  shows "dec_fix ctx128 \<lparr>coeff = c, expo = - 128\<rparr>
           = Inr \<lparr>coeff = round_half_even c 10, expo = - 127\<rparr>"
proof -
  have n: "ndigits c = 129" using ndigits_eq [of 128 c] assms(1,2) by simp
  have q: "ndigits (round_half_even c 10) = 128"
    using ndigits_eq [of 127 "round_half_even c 10"] assms(3,4) by simp
  have c0: "c \<noteq> 0" using assms(1) by auto
  show ?thesis
    using c0 by (simp add: dec_fix_def ctx128_def Etiny_def Etop_def n q Let_def)
qed

section \<open>Signed fixed point\<close>

lemma bin_value_leading_zero: "bin_value (CHR ''0'' # rest) = bin_value rest"
  by (simp add: bin_value_def)

lemma FixedToDecimal_leading_zero:
  assumes "matches ''int'' = Some (CHR ''0'' # rest)"
  shows "FixedToDecimal matches = UFixedToDecimal matches"
  using assms by (simp add: FixedToDecimal_def)

lemma FixedToDecimal_negative_exact:
  assumes I: "binary_digits (sign # rest)" and s: "sign \<noteq> CHR ''0''"
    and m: "matches ''int'' = Some (sign # rest)" "matches ''frac'' = Some F"
    and p2: "(2::rat) ^ length rest < 10 ^ 128"
    and fu: "fits128 (unsigned_value (CHR ''0'' # rest) F)"
    and fw: "fits128 (- (2 ^ length rest) + unsigned_value (CHR ''0'' # rest) F)"
  shows "\<exists>d. FixedToDecimal matches = Inr d
             \<and> dec_val d = - (2 ^ length rest) + unsigned_value (CHR ''0'' # rest) F"
proof -
  define p where "p = length rest"
  define I' where "I' = CHR ''0'' # rest"
  define matches' where "matches' = matches(''int'' \<mapsto> I')"
  define n where "n = bin_value I'"
  define f where "f = frac_value 0 F"
  define L where "L = sig_frac F"
  define u where "u = unsigned_value I' F"
  have uv: "u = of_nat n + f" by (simp add: u_def unsigned_value_def n_def f_def)
  have f0: "0 \<le> f" unfolding f_def by (rule frac_value_nonneg)
  have I'b: "binary_digits I'" using I by (simp add: binary_digits_def I'_def)
  have "n < 2 ^ p"
    unfolding n_def I'_def bin_value_leading_zero p_def by (rule bin_value_less)
  then have "n + 1 \<le> 2 ^ p" by simp
  then have "(of_nat (n + 1) :: rat) \<le> of_nat (2 ^ p)" by (simp only: of_nat_le_iff)
  then have n1: "of_nat n + 1 \<le> (2::rat) ^ p" by simp
  then have nlt: "(of_nat n :: rat) < 2 ^ p" by linarith
  have n0: "(0::rat) \<le> of_nat n" by simp
  have p2': "(2::rat) ^ p < 10 ^ 128" using p2 by (simp add: p_def)
  have ub: "u * 10 ^ L < 10 ^ 128" and wb: "\<bar>- (2 ^ p) + u\<bar> * 10 ^ L < 10 ^ 128"
  proof -
    show "u * 10 ^ L < 10 ^ 128"
    proof (cases "0 < L")
      case True
      then have pos: "0 < sig_frac F" by (simp add: L_def)
      obtain M :: int where M: "(of_int (int n) + frac_value 0 F) * 10 ^ sig_frac F = of_int M"
        "M mod 10 = 5"
        using value_scaled_int [OF pos] by blast
      have sc: "u * 10 ^ L = of_int M" using M(1) by (simp add: uv f_def L_def)
      have "fits128 u" using fu by (simp add: u_def I'_def)
      then have "\<bar>M\<bar> < 10 ^ 128" using sc M(2) by (rule fits128_scaled)
      then have "M < 10 ^ 128" by simp
      then have "(of_int M :: rat) < of_int (10 ^ 128)" by (simp only: of_int_less_iff)
      then show ?thesis by (simp add: sc)
    next
      case False
      then have L0: "sig_frac F = 0" by (simp add: L_def)
      have "f = 0" unfolding f_def by (rule frac_value_no_one [OF L0])
      then have "u = of_nat n" by (simp add: uv)
      then have "u < 2 ^ p" using nlt by (simp only:)
      then show ?thesis using p2' False by simp
    qed
    show "\<bar>- (2 ^ p) + u\<bar> * 10 ^ L < 10 ^ 128"
    proof (cases "0 < L")
      case True
      then have pos: "0 < sig_frac F" by (simp add: L_def)
      obtain M :: int where M: "(of_int (int n - 2 ^ p) + frac_value 0 F) * 10 ^ sig_frac F
                                  = of_int M" "M mod 10 = 5"
        using value_scaled_int [OF pos] by blast
      have eq: "- (2 ^ p) + u = of_int (int n - 2 ^ p) + frac_value 0 F"
        by (simp add: uv f_def)
      have sc: "(- (2 ^ p) + u) * 10 ^ L = of_int M"
        unfolding eq L_def by (rule M(1))
      have "fits128 (- (2 ^ p) + u)" using fw by (simp add: u_def I'_def p_def)
      then have "\<bar>M\<bar> < 10 ^ 128" using sc M(2) by (rule fits128_scaled)
      then have "(of_int \<bar>M\<bar> :: rat) < of_int (10 ^ 128)" by (simp only: of_int_less_iff)
      moreover have "\<bar>- (2 ^ p) + u\<bar> * 10 ^ L = of_int \<bar>M\<bar>"
      proof -
        have "\<bar>(- (2 ^ p) + u) * 10 ^ L\<bar> = \<bar>of_int M :: rat\<bar>" by (simp only: sc)
        then show ?thesis by (simp add: abs_mult)
      qed
      ultimately show ?thesis by simp
    next
      case False
      then have L0: "sig_frac F = 0" by (simp add: L_def)
      have "f = 0" unfolding f_def by (rule frac_value_no_one [OF L0])
      then have "u = of_nat n" by (simp add: uv)
      then have "0 \<le> u" "u < 2 ^ p" using nlt n0 by (simp_all only:)
      then have "\<bar>- (2 ^ p) + u\<bar> \<le> 2 ^ p" by linarith
      then show ?thesis using p2' False by simp
    qed
  qed
  have "\<exists>d. UFixedToDecimal matches' = Inr d \<and> dec_val d = unsigned_value I' F
             \<and> expo d = - int (sig_frac F) \<and> sig_frac F \<le> 183"
    using I'b _ _ ub [unfolded u_def L_def]
    by (rule UFixedToDecimal_exact) (simp_all add: matches'_def m)
  then obtain du where du: "UFixedToDecimal matches' = Inr du" "dec_val du = u"
    "expo du = - int L" "L \<le> 183"
    by (auto simp: u_def L_def)
  define start where "start = \<lparr>coeff = - (2 ^ p), expo = 0\<rparr>"
  have sv: "dec_val start = - (2 ^ p)" by (simp add: start_def dec_val_def)
  have se: "expo start = 0" by (simp add: start_def)
  have pw: "dec_pow2 ctx128 (int (length (sign # rest)) - 1) = Inr \<lparr>coeff = 2 ^ p, expo = 0\<rparr>"
    using dec_pow2_pos_exact [OF p2'] by (simp add: p_def)
  have ng: "dec_neg ctx128 \<lparr>coeff = 2 ^ p, expo = 0\<rparr> = Inr start"
    unfolding start_def using p2' by (rule dec_neg_pow2_exact)
  have e: "nat (- min (expo start) (expo du)) = L" by (simp add: se du(3))
  have bound: "\<bar>dec_val start + dec_val du\<bar>
                 * 10 ^ nat (- min (expo start) (expo du)) < 10 ^ 128"
    using wb by (simp only: e sv du(2))
  have "\<exists>d. dec_add ctx128 start du = Inr d \<and> dec_val d = dec_val start + dec_val du
            \<and> expo d = min (expo start) (expo du)"
    using du(4) bound by (intro dec_add_exact) (simp_all add: se du(3))
  then obtain d where d: "dec_add ctx128 start du = Inr d"
    "dec_val d = dec_val start + dec_val du"
    by blast
  have "FixedToDecimal matches = Inr d"
    using s pw ng du(1) d(1)
    by (simp add: FixedToDecimal_def m(1) matches'_def I'_def)
  moreover have "dec_val d = - (2 ^ length rest) + unsigned_value (CHR ''0'' # rest) F"
    by (simp add: d(2) sv du(2) u_def p_def I'_def)
  ultimately show ?thesis by blast
qed

text \<open>The dictionary of the named groups of the default fixed-point pattern.\<close>

lemma groupdict_fxd_match: "groupdict (fxd_match (i, f)) = fixed_matches i f"
  by (rule ext) (simp add: groupdict_def fxd_match_def fixed_matches_def)

section \<open>The fixed-point conversions within the precision\<close>

lemma fits128I: "\<bar>c\<bar> < 10 ^ 128 \<Longrightarrow> x = of_int c * 10 powi e \<Longrightarrow> fits128 x"
  by (auto simp: fits128_def)

lemma ndigits_small: "\<bar>c\<bar> < 10 \<Longrightarrow> ndigits c = 1"
  by (subst ndigits.simps) simp

text \<open>
  Conversely, every result of the context has at most 128 significant digits, so a
  conversion returns the exact value only when that value has at most 128 of them.
\<close>

lemma round_half_even_bounds:
  assumes m: "0 < m" and c: "\<bar>c\<bar> < K * m"
  shows "\<bar>round_half_even c m\<bar> \<le> K"
proof -
  define q where "q = c div m"
  have lo: "q * m \<le> c" unfolding q_def using m
    by (metis mult.commute pos_mod_sign add_le_cancel_left add.right_neutral mult_div_mod_eq)
  have hi: "c < q * m + m" unfolding q_def using m
    by (metis mult.commute pos_mod_bound add_less_cancel_left mult_div_mod_eq)
  from lo c have "q * m < K * m" by linarith
  with m have q1: "q < K" by (simp add: mult_less_cancel_right)
  from hi c have "(- K) * m < (q + 1) * m" by (simp add: algebra_simps)
  with m have q2: "- K < q + 1" by (simp only: mult_less_cancel_right)
  have "round_half_even c m = q \<or> round_half_even c m = q + 1"
    by (simp add: round_half_even_def Let_def q_def)
  with q1 q2 show ?thesis by auto
qed

lemma dec_fix_coeff_bound:
  assumes "dec_fix ctx128 x = Inr d"
  shows "\<bar>coeff d\<bar> < 10 ^ 128"
proof (cases "coeff x = 0")
  case True
  with assms show ?thesis by (auto simp: dec_fix_def)
next
  case nz: False
  define em0 where "em0 = int (ndigits (coeff x)) + expo x - 128"
  define em where "em = max em0 (Etiny ctx128)"
  show ?thesis
  proof (cases "expo x < em")
    case False
    with assms nz have "d = x"
      by (auto simp: dec_fix_def Let_def em_def em0_def ctx128_def split: if_splits)
    moreover from False have "ndigits (coeff x) \<le> 128" by (simp add: em_def em0_def)
    then have "(10::int) ^ ndigits (coeff x) \<le> 10 ^ 128" by (intro power_increasing) simp_all
    ultimately show ?thesis using less_pow_ndigits [of "coeff x"] by simp
  next
    case True
    define j where "j = nat (em - expo x)"
    define c where "c = round_half_even (coeff x) (10 ^ j)"
    from True have "int (ndigits (coeff x)) \<le> 128 + int j" by (simp add: j_def em_def em0_def)
    then have "ndigits (coeff x) \<le> 128 + j" by linarith
    then have "(10::int) ^ ndigits (coeff x) \<le> 10 ^ (128 + j)" by (intro power_increasing) simp_all
    with less_pow_ndigits [of "coeff x"] have "\<bar>coeff x\<bar> < 10 ^ 128 * 10 ^ j"
      by (simp only: power_add)
    then have cb: "\<bar>c\<bar> \<le> 10 ^ 128" unfolding c_def by (intro round_half_even_bounds) simp_all
    from assms nz True have "coeff d = (if ndigits c > 128 then c div 10 else c)"
      by (auto simp: dec_fix_def Let_def em_def em0_def ctx128_def c_def j_def split: if_splits)
    moreover have "\<bar>c div 10\<bar> < 10 ^ 128" using cb by simp
    moreover have "\<not> ndigits c > 128 \<Longrightarrow> \<bar>c\<bar> < 10 ^ 128"
    proof -
      assume "\<not> ndigits c > 128"
      then have "(10::int) ^ ndigits c \<le> 10 ^ 128" by (intro power_increasing) simp_all
      with less_pow_ndigits [of c] show ?thesis by linarith
    qed
    ultimately show ?thesis by auto
  qed
qed

lemma dec_add_result_fits:
  assumes "dec_add ctx128 a b = Inr d"
  shows "fits128 (dec_val d)"
proof -
  from assms obtain y where "dec_fix ctx128 y = Inr d" by (auto simp: dec_add_def Let_def)
  then have "\<bar>coeff d\<bar> < 10 ^ 128" by (rule dec_fix_coeff_bound)
  then show ?thesis by (rule fits128I [where e = "expo d"]) (simp add: dec_val_def)
qed

lemma UFixedToDecimal_result_fits:
  assumes "UFixedToDecimal matches = Inr d"
  shows "fits128 (dec_val d)"
proof -
  from assms obtain a b where "dec_add ctx128 a b = Inr d"
    by (auto simp: UFixedToDecimal_def split: option.splits sum.splits)
  then show ?thesis by (rule dec_add_result_fits)
qed

lemma FixedToDecimal_result_fits:
  assumes "FixedToDecimal matches = Inr d"
  shows "fits128 (dec_val d)"
proof -
  from assms have "UFixedToDecimal matches = Inr d \<or> (\<exists>a b. dec_add ctx128 a b = Inr d)"
    by (auto simp: FixedToDecimal_def split: option.splits list.splits sum.splits if_splits)
  then show ?thesis by (auto intro: UFixedToDecimal_result_fits dec_add_result_fits)
qed

text \<open>
  C2, as amended. For a non-empty string \<open>I\<close> of binary digits and fractional digits
  \<open>F\<close>, let \<open>V\<close> be the value of \<open>I\<close> in base 2 plus \<open>2 ^ (- (i + 1))\<close> for every position
  \<open>i\<close> of \<open>F\<close> that holds a \<open>1\<close>. Whenever \<open>V\<close> has at most 128 significant decimal digits,
  \<open>UFixedToDecimal\<close> returns exactly \<open>V\<close>. (The integer part must have at most 1,000,000
  decimal digits, beyond which the \<open>Decimal\<close> context raises \<open>Overflow\<close>.) A value of
  more significant digits is rounded to 128.
\<close>

theorem UFixedToDecimal_value:
  assumes "binary_digits I"
    and "fits128 (unsigned_value I F)"
    and "ndigits (int (bin_value I)) \<le> 1000000"
  shows "\<exists>d. UFixedToDecimal (fixed_matches I F) = Inr d \<and> dec_val d = unsigned_value I F"
  using assms(1) _ _ assms(2,3)
  by (rule UFixedToDecimal_fits) (simp_all add: fixed_matches_def)

theorem UFixedToDecimal_value_witness:
  "binary_digits ''101'' \<and> fits128 (unsigned_value ''101'' ''110'')
   \<and> ndigits (int (bin_value ''101'')) \<le> 1000000
   \<and> UFixedToDecimal (fixed_matches ''101'' ''110'') = Inr \<lparr>coeff = 575, expo = - 2\<rparr>
   \<and> dec_val \<lparr>coeff = 575, expo = - 2\<rparr> = 23 / 4
   \<and> unsigned_value ''101'' ''110'' = 23 / 4
   \<and> binary_digits ''11''
   \<and> fits128 (unsigned_value ''11'' (replicate 126 (CHR ''0'') @ ''1''))
   \<and> ndigits (int (bin_value ''11'')) \<le> 1000000
   \<and> (\<exists>d. UFixedToDecimal (fixed_matches ''11'' (replicate 126 (CHR ''0'') @ ''1'')) = Inr d
          \<and> dec_val d = 3 + 1 / 2 ^ 127)"
proof -
  have a: "binary_digits ''101''" "binary_digits ''11''" by (simp_all add: binary_digits_def)
  have v: "unsigned_value ''101'' ''110'' = 23 / 4"
    by (simp add: unsigned_value_def bin_value_def frac_value_def)
  have b: "fits128 (unsigned_value ''101'' ''110'')"
    unfolding v by (rule fits128I [of 575 _ "- 2"]) (simp_all add: power_int_minus)
  have n: "ndigits (int (bin_value ''101'')) \<le> 1000000"
    "ndigits (int (bin_value ''11'')) \<le> 1000000"
    by (simp_all add: bin_value_def ndigits_small)
  have c: "UFixedToDecimal (fixed_matches ''101'' ''110'') = Inr \<lparr>coeff = 575, expo = - 2\<rparr>"
    by code_simp
  have d: "dec_val \<lparr>coeff = 575, expo = - 2\<rparr> = 23 / 4"
    by (simp add: dec_val_def power_int_minus)
  have v2: "unsigned_value ''11'' (replicate 126 (CHR ''0'') @ ''1'') = 3 + 1 / 2 ^ 127"
    by (simp add: unsigned_value_def bin_value_def frac_value_zeros frac_value_Cons
        frac_value_Nil)
  have b2: "fits128 (unsigned_value ''11'' (replicate 126 (CHR ''0'') @ ''1''))"
    unfolding v2
    by (rule fits128I [of "3 * 10 ^ 127 + 5 ^ 127" _ "- 127"])
      (simp_all add: power_int_minus field_simps)
  show ?thesis
    using UFixedToDecimal_value [OF a(1) b n(1)] UFixedToDecimal_value [OF a(2) b2 n(2)]
      a b b2 n c d v
    by (simp only: v2)
qed

text \<open>
  The claim as stated fails: with the integer digit \<open>1\<close> and the fractional digits
  \<open>0...01\<close> of length 128 the exact value \<open>1 + 2 ^ (- 128)\<close> has 129 significant digits,
  and the code returns it rounded to 128.
\<close>

theorem UFixedToDecimal_rounds_counterexample:
  "UFixedToDecimal (fixed_matches ''1'' (replicate 127 (CHR ''0'') @ ''1''))
     = Inr \<lparr>coeff = 10000000000000000000000000000000000000029387358770557187699218413430556141945466638919302188037718792656960431486368179321289062,
            expo = - 127\<rparr>
   \<and> dec_val \<lparr>coeff = 10000000000000000000000000000000000000029387358770557187699218413430556141945466638919302188037718792656960431486368179321289062,
              expo = - 127\<rparr>
     \<noteq> unsigned_value ''1'' (replicate 127 (CHR ''0'') @ ''1'')"
proof -
  have i: "py_int ''1'' 2 = Inr 1"
    using py_int_binary [of "''1''"] by (simp add: binary_digits_def bin_value_def)
  have r: "round_half_even (5 ^ 128 + 10 ^ 128) 10
             = 10000000000000000000000000000000000000029387358770557187699218413430556141945466638919302188037718792656960431486368179321289062"
    by (simp add: round_half_even_def Let_def)
  have f: "dec_fix ctx128 \<lparr>coeff = 5 ^ 128 + 10 ^ 128, expo = - 128\<rparr>
             = Inr \<lparr>coeff = round_half_even (5 ^ 128 + 10 ^ 128) 10, expo = - 127\<rparr>"
    by (rule dec_fix_drop_digit) (simp_all only: r, simp_all)
  have a: "dec_add ctx128 \<lparr>coeff = 5 ^ 128, expo = - 128\<rparr> (Decimal 1)
             = dec_fix ctx128 \<lparr>coeff = 5 ^ 128 + 10 ^ 128, expo = - 128\<rparr>"
    by (simp add: dec_add_def Decimal_def)
  have "UFixedToDecimal (fixed_matches ''1'' (replicate 127 (CHR ''0'') @ ''1''))
          = dec_add ctx128 \<lparr>coeff = 5 ^ 128, expo = - 128\<rparr> (Decimal 1)"
    by (simp only: UFixedToDecimal_def fixed_matches_def) (simp add: i frac_loop_last_one)
  also note a
  also note f
  finally have u: "UFixedToDecimal (fixed_matches ''1'' (replicate 127 (CHR ''0'') @ ''1''))
             = Inr \<lparr>coeff = round_half_even (5 ^ 128 + 10 ^ 128) 10, expo = - 127\<rparr>" .
  have v: "unsigned_value ''1'' (replicate 127 (CHR ''0'') @ ''1'') = 1 + 1 / 2 ^ 128"
    by (simp add: unsigned_value_def bin_value_def frac_value_zeros frac_value_Cons
        frac_value_Nil)
  have n: "dec_val \<lparr>coeff = round_half_even (5 ^ 128 + 10 ^ 128) 10, expo = - 127\<rparr>
             \<noteq> 1 + 1 / 2 ^ 128"
    by (subst r) (simp add: dec_val_def power_int_minus field_simps)
  show ?thesis using u n by (simp only: r v) simp
qed

text \<open>
  C1, as amended. For a non-empty string \<open>I\<close> of binary digits and fractional digits
  \<open>F\<close>: when the leading digit of \<open>I\<close> is \<open>0\<close>, \<open>FixedToDecimal\<close> returns what
  \<open>UFixedToDecimal\<close> returns. Otherwise let \<open>p = len(I) - 1\<close> and let \<open>U\<close> be the exact
  unsigned value of \<open>I\<close> with its leading digit replaced by \<open>0\<close>, together with \<open>F\<close>.
  Whenever \<open>2 ^ p\<close>, \<open>U\<close> and \<open>- 2 ^ p + U\<close> each have at most 128 significant decimal
  digits, \<open>FixedToDecimal\<close> returns exactly \<open>- 2 ^ p + U\<close>. A value of more significant
  digits is rounded to 128.
\<close>

theorem FixedToDecimal_value:
  assumes "binary_digits I"
  shows "(hd I = CHR ''0'' \<longrightarrow>
            FixedToDecimal (fixed_matches I F) = UFixedToDecimal (fixed_matches I F))
         \<and> (hd I \<noteq> CHR ''0''
              \<and> (2::nat) ^ (length I - 1) < 10 ^ 128
              \<and> fits128 (unsigned_value (CHR ''0'' # tl I) F)
              \<and> fits128 (- (2 ^ (length I - 1)) + unsigned_value (CHR ''0'' # tl I) F) \<longrightarrow>
              (\<exists>d. FixedToDecimal (fixed_matches I F) = Inr d
                   \<and> dec_val d = - (2 ^ (length I - 1)) + unsigned_value (CHR ''0'' # tl I) F))"
proof -
  obtain sign rest where I: "I = sign # rest"
    using assms(1) by (cases I) (auto simp: binary_digits_def)
  have mi: "fixed_matches I F ''int'' = Some (sign # rest)"
    and mf: "fixed_matches I F ''frac'' = Some F"
    by (simp_all add: fixed_matches_def I)
  show ?thesis
  proof (intro conjI impI)
    assume "hd I = CHR ''0''"
    then have "fixed_matches I F ''int'' = Some (CHR ''0'' # rest)" using mi by (simp add: I)
    then show "FixedToDecimal (fixed_matches I F) = UFixedToDecimal (fixed_matches I F)"
      by (rule FixedToDecimal_leading_zero)
  next
    assume h: "hd I \<noteq> CHR ''0''
               \<and> (2::nat) ^ (length I - 1) < 10 ^ 128
               \<and> fits128 (unsigned_value (CHR ''0'' # tl I) F)
               \<and> fits128 (- (2 ^ (length I - 1)) + unsigned_value (CHR ''0'' # tl I) F)"
    then have s: "sign \<noteq> CHR ''0''" by (simp add: I)
    from h have "(2::nat) ^ length rest < 10 ^ 128" by (simp add: I)
    then have "(of_nat (2 ^ length rest) :: rat) < of_nat (10 ^ 128)"
      by (simp only: of_nat_less_iff)
    then have p2: "(2::rat) ^ length rest < 10 ^ 128" by simp
    from h have fu: "fits128 (unsigned_value (CHR ''0'' # rest) F)"
      and fw: "fits128 (- (2 ^ length rest) + unsigned_value (CHR ''0'' # rest) F)"
      by (simp_all add: I)
    have "\<exists>d. FixedToDecimal (fixed_matches I F) = Inr d
             \<and> dec_val d = - (2 ^ length rest) + unsigned_value (CHR ''0'' # rest) F"
      using assms [unfolded I] s mi mf p2 fu fw by (rule FixedToDecimal_negative_exact)
    then show "\<exists>d. FixedToDecimal (fixed_matches I F) = Inr d
             \<and> dec_val d = - (2 ^ (length I - 1)) + unsigned_value (CHR ''0'' # tl I) F"
      by (simp add: I)
  qed
qed

theorem FixedToDecimal_value_witness:
  "binary_digits ''101''
   \<and> (2::nat) ^ (length ''101'' - 1) < 10 ^ 128
   \<and> fits128 (unsigned_value (CHR ''0'' # tl ''101'') ''110'')
   \<and> fits128 (- (2 ^ (length ''101'' - 1)) + unsigned_value (CHR ''0'' # tl ''101'') ''110'')
   \<and> FixedToDecimal (fixed_matches ''101'' ''110'') = Inr \<lparr>coeff = - 225, expo = - 2\<rparr>
   \<and> dec_val \<lparr>coeff = - 225, expo = - 2\<rparr> = - (9 / 4)
   \<and> - (2 ^ (length ''101'' - 1)) + unsigned_value (CHR ''0'' # tl ''101'') ''110'' = - (9 / 4)
   \<and> FixedToDecimal (fixed_matches ''1'' ''011'') = Inr \<lparr>coeff = - 625, expo = - 3\<rparr>
   \<and> dec_val \<lparr>coeff = - 625, expo = - 3\<rparr> = - (5 / 8)
   \<and> binary_digits ''011''
   \<and> FixedToDecimal (fixed_matches ''011'' ''1'') = UFixedToDecimal (fixed_matches ''011'' ''1'')
   \<and> binary_digits ''1''
   \<and> fits128 (unsigned_value ''0'' (replicate 127 (CHR ''0'') @ ''1''))
   \<and> fits128 (- 1 + unsigned_value ''0'' (replicate 127 (CHR ''0'') @ ''1''))
   \<and> (\<exists>d. FixedToDecimal (fixed_matches ''1'' (replicate 127 (CHR ''0'') @ ''1'')) = Inr d
          \<and> dec_val d = - 1 + 1 / 2 ^ 128)"
proof -
  have a: "binary_digits ''101''" "binary_digits ''1''" "binary_digits ''011''"
    by (simp_all add: binary_digits_def)
  have p: "(2::nat) ^ (length ''101'' - 1) < 10 ^ 128" by simp
  have v: "unsigned_value (CHR ''0'' # tl ''101'') ''110'' = 7 / 4"
    by (simp add: unsigned_value_def bin_value_def frac_value_def)
  have fu: "fits128 (unsigned_value (CHR ''0'' # tl ''101'') ''110'')"
    unfolding v by (rule fits128I [of 175 _ "- 2"]) (simp_all add: power_int_minus)
  have fw: "fits128 (- (2 ^ (length ''101'' - 1))
                     + unsigned_value (CHR ''0'' # tl ''101'') ''110'')"
    unfolding v by (rule fits128I [of "- 225" _ "- 2"]) (simp_all add: power_int_minus)
  have c: "FixedToDecimal (fixed_matches ''101'' ''110'') = Inr \<lparr>coeff = - 225, expo = - 2\<rparr>"
    by code_simp
  have d: "FixedToDecimal (fixed_matches ''1'' ''011'') = Inr \<lparr>coeff = - 625, expo = - 3\<rparr>"
    by code_simp
  have e: "dec_val \<lparr>coeff = - 225, expo = - 2\<rparr> = - (9 / 4)"
    "dec_val \<lparr>coeff = - 625, expo = - 3\<rparr> = - (5 / 8)"
    by (simp_all add: dec_val_def power_int_minus)
  have w: "- (2 ^ (length ''101'' - 1)) + unsigned_value (CHR ''0'' # tl ''101'') ''110''
             = - (9 / 4)"
    unfolding v by simp
  have v2: "unsigned_value ''0'' (replicate 127 (CHR ''0'') @ ''1'') = 1 / 2 ^ 128"
    by (simp add: unsigned_value_def bin_value_def frac_value_zeros frac_value_Cons
        frac_value_Nil)
  have fu2: "fits128 (unsigned_value ''0'' (replicate 127 (CHR ''0'') @ ''1''))"
    unfolding v2
    by (rule fits128I [of "5 ^ 128" _ "- 128"]) (simp_all add: power_int_minus field_simps)
  have fw2: "fits128 (- 1 + unsigned_value ''0'' (replicate 127 (CHR ''0'') @ ''1''))"
    unfolding v2
    by (rule fits128I [of "5 ^ 128 - 10 ^ 128" _ "- 128"])
      (simp_all add: power_int_minus field_simps)
  have l: "FixedToDecimal (fixed_matches ''011'' ''1'') = UFixedToDecimal (fixed_matches ''011'' ''1'')"
    using FixedToDecimal_value [OF a(3), of "''1''"] by simp
  have x: "\<exists>d. FixedToDecimal (fixed_matches ''1'' (replicate 127 (CHR ''0'') @ ''1'')) = Inr d
          \<and> dec_val d = - 1 + 1 / 2 ^ 128"
    using FixedToDecimal_value [OF a(2), of "replicate 127 (CHR ''0'') @ ''1''"] fu2 fw2
    by (simp add: v2)
  show ?thesis
    using FixedToDecimal_value [OF a(1), of "''110''"] a p fu fw c d e w l fu2 fw2 x
    by simp
qed

text \<open>
  The claim as stated fails: with the integer digits \<open>10\<close> and the fractional digits
  \<open>0...01\<close> of length 128 the unsigned value of \<open>00\<close> and the fraction is \<open>2 ^ (- 128)\<close>,
  which \<open>UFixedToDecimal\<close> returns exactly; \<open>- 2\<close> plus it has 129 significant digits,
  and the code returns the sum rounded to 128.
\<close>

theorem FixedToDecimal_rounds_counterexample:
  "UFixedToDecimal (fixed_matches ''00'' (replicate 127 (CHR ''0'') @ ''1''))
     = Inr \<lparr>coeff = 5 ^ 128, expo = - 128\<rparr>
   \<and> dec_val \<lparr>coeff = 5 ^ 128, expo = - 128\<rparr>
       = unsigned_value ''00'' (replicate 127 (CHR ''0'') @ ''1'')
   \<and> FixedToDecimal (fixed_matches ''10'' (replicate 127 (CHR ''0'') @ ''1''))
       = Inr \<lparr>coeff = - 19999999999999999999999999999999999999970612641229442812300781586569443858054533361080697811962281207343039568513631820678710938,
              expo = - 127\<rparr>
   \<and> dec_val \<lparr>coeff = - 19999999999999999999999999999999999999970612641229442812300781586569443858054533361080697811962281207343039568513631820678710938,
                expo = - 127\<rparr>
       \<noteq> - (2 ^ 1) + unsigned_value ''00'' (replicate 127 (CHR ''0'') @ ''1'')"
proof -
  define F where "F = replicate 127 (CHR ''0'') @ ''1''"
  have i: "py_int ''00'' 2 = Inr 0"
    using py_int_binary [of "''00''"] by (simp add: binary_digits_def bin_value_def)
  have fl: "frac_loop ctx128 (enumerate 0 F) (Decimal 0) = Inr \<lparr>coeff = 5 ^ 128, expo = - 128\<rparr>"
    unfolding F_def by (rule frac_loop_last_one)
  have "\<bar>5 ^ 128 :: int\<bar> < 10 ^ 128" by simp
  then have f0: "dec_fix ctx128 \<lparr>coeff = 5 ^ 128, expo = - 128\<rparr>
                  = Inr \<lparr>coeff = 5 ^ 128, expo = - 128\<rparr>"
    by (intro dec_fix_exact) simp_all
  have a0: "dec_add ctx128 \<lparr>coeff = 5 ^ 128, expo = - 128\<rparr> (Decimal 0)
             = Inr \<lparr>coeff = 5 ^ 128, expo = - 128\<rparr>"
    using f0 by (simp add: dec_add_def Decimal_def)
  have u: "UFixedToDecimal m = Inr \<lparr>coeff = 5 ^ 128, expo = - 128\<rparr>"
    if "m ''int'' = Some ''00''" "m ''frac'' = Some F" for m
    using that i fl a0 by (simp add: UFixedToDecimal_def)
  have v: "unsigned_value ''00'' F = 1 / 2 ^ 128"
    by (simp add: F_def unsigned_value_def bin_value_def frac_value_zeros frac_value_Cons
        frac_value_Nil)
  have uv: "dec_val \<lparr>coeff = 5 ^ 128, expo = - 128\<rparr> = unsigned_value ''00'' F"
    using dec_val_pow5 [of 128] v by simp
  have pw: "dec_pow2 ctx128 (int (length ''10'') - 1) = Inr \<lparr>coeff = 2 ^ 1, expo = 0\<rparr>"
    using dec_pow2_pos_exact [of 1] by simp
  have ng: "dec_neg ctx128 \<lparr>coeff = 2 ^ 1, expo = 0\<rparr> = Inr \<lparr>coeff = - (2 ^ 1), expo = 0\<rparr>"
    by (rule dec_neg_pow2_exact) simp
  have r: "round_half_even (- (2 ^ 1) * 10 ^ 128 + 5 ^ 128) 10
             = - 19999999999999999999999999999999999999970612641229442812300781586569443858054533361080697811962281207343039568513631820678710938"
    by (simp add: round_half_even_def Let_def)
  have f: "dec_fix ctx128 \<lparr>coeff = - (2 ^ 1) * 10 ^ 128 + 5 ^ 128, expo = - 128\<rparr>
             = Inr \<lparr>coeff = round_half_even (- (2 ^ 1) * 10 ^ 128 + 5 ^ 128) 10, expo = - 127\<rparr>"
    by (rule dec_fix_drop_digit) (simp_all only: r, simp_all)
  have a: "dec_add ctx128 \<lparr>coeff = - (2 ^ 1), expo = 0\<rparr> \<lparr>coeff = 5 ^ 128, expo = - 128\<rparr>
             = dec_fix ctx128 \<lparr>coeff = - (2 ^ 1) * 10 ^ 128 + 5 ^ 128, expo = - 128\<rparr>"
    by (simp add: dec_add_def)
  have "FixedToDecimal (fixed_matches ''10'' F)
          = dec_add ctx128 \<lparr>coeff = - (2 ^ 1), expo = 0\<rparr> \<lparr>coeff = 5 ^ 128, expo = - 128\<rparr>"
    using pw ng u [of "(fixed_matches ''10'' F)(''int'' \<mapsto> ''00'')"]
    by (simp add: FixedToDecimal_def fixed_matches_def)
  also note a
  also note f
  finally have s: "FixedToDecimal (fixed_matches ''10'' F)
     = Inr \<lparr>coeff = round_half_even (- (2 ^ 1) * 10 ^ 128 + 5 ^ 128) 10, expo = - 127\<rparr>" .
  have n: "dec_val \<lparr>coeff = round_half_even (- (2 ^ 1) * 10 ^ 128 + 5 ^ 128) 10, expo = - 127\<rparr>
             \<noteq> - (2 ^ 1) + 1 / 2 ^ 128"
    by (subst r) (simp add: dec_val_def power_int_minus field_simps)
  have u0: "UFixedToDecimal (fixed_matches ''00'' F) = Inr \<lparr>coeff = 5 ^ 128, expo = - 128\<rparr>"
    by (rule u) (simp_all add: fixed_matches_def)
  have n': "dec_val \<lparr>coeff = - 19999999999999999999999999999999999999970612641229442812300781586569443858054533361080697811962281207343039568513631820678710938,
                    expo = - 127\<rparr>
              \<noteq> - (2 ^ 1) + unsigned_value ''00'' F"
    using n unfolding r v .
  show ?thesis
    using u0 uv s [unfolded r] n' unfolding F_def by blast
qed

end
